theory Spec2Isabelle
  imports Main "HOL-Library.Multiset"
begin

section \<open>Graph model\<close>

text \<open>
  An edge is a pair of nodes, a graph a list of nodes and a list of edges. The node type
  \<open>'n\<close> and the identity type \<open>'i\<close> are arbitrary. The comparator returns a number, of
  which the algorithms only ever test whether it is zero, negative or positive; it is
  modelled as an integer, so a comparator that returns a value for which all three tests
  fail is outside the model. The sets of identities are sets, tested for membership only;
  two identities are equal when the set and the map of the source take them for the same
  key.
\<close>

record 'n Edge =
  edge_from :: 'n
  edge_to :: 'n

record 'n Graph =
  nodes :: "'n list"
  edges :: "'n Edge list"

type_synonym ('n, 'i) NodeIdentitySupplier = "'n \<Rightarrow> 'i"
type_synonym 'n NodeComparator = "'n \<Rightarrow> 'n \<Rightarrow> int"

section \<open>dagIsCyclicalDFS\<close>

text \<open>
  The inner function \<open>dagDFS\<close> adds the node to \<open>visited\<close> and \<open>recursionStack\<close> and then
  scans all edges of the graph. \<open>isCyclical_edges\<close> is that scan, from the remaining edges
  onwards; it returns the result together with the two sets as the call leaves them.
\<close>

function isCyclical_edges ::
  "'n Graph \<Rightarrow> ('n, 'i) NodeIdentitySupplier \<Rightarrow> 'n NodeComparator \<Rightarrow>
   'n \<Rightarrow> 'n Edge list \<Rightarrow> 'i set \<Rightarrow> 'i set \<Rightarrow> bool \<times> 'i set \<times> 'i set" where
  "isCyclical_edges g identity compare node [] visited recursionStack =
     (False, visited, recursionStack - {identity node})"
| "isCyclical_edges g identity compare node (edge # rest) visited recursionStack =
     (if compare (edge_from edge) node = 0 then
        (let neighbour = edge_to edge in
         if identity neighbour \<notin> visited then
           (case isCyclical_edges g identity compare neighbour (edges g)
                   (insert (identity neighbour) visited)
                   (insert (identity neighbour) recursionStack) of
              (found, visited', recursionStack') \<Rightarrow>
                if found then (True, visited', recursionStack')
                else if identity neighbour \<in> recursionStack' then (True, visited', recursionStack')
                else isCyclical_edges g identity compare node rest visited' recursionStack')
         else if identity neighbour \<in> recursionStack then (True, visited, recursionStack)
         else isCyclical_edges g identity compare node rest visited recursionStack)
      else isCyclical_edges g identity compare node rest visited recursionStack)"
  by pat_completeness auto

lemma isCyclical_edges_dom_mono:
  "isCyclical_edges_dom (g, identity, compare, node, es, visited, recursionStack) \<Longrightarrow>
   visited \<subseteq> fst (snd (isCyclical_edges g identity compare node es visited recursionStack))"
proof (induction g identity compare node es visited recursionStack rule: isCyclical_edges.pinduct)
  case (1 g identity compare node visited recursionStack)
  then show ?case by (simp add: isCyclical_edges.psimps)
next
  case (2 g identity compare node edge rest visited recursionStack)
  let ?x = "edge_to edge"
  show ?case
  proof (cases "compare (edge_from edge) node = 0")
    case False
    then show ?thesis using 2(1) 2(5) by (simp add: isCyclical_edges.psimps)
  next
    case match: True
    show ?thesis
    proof (cases "identity ?x \<in> visited")
      case True
      then show ?thesis using match 2(1) 2(4)[OF match refl]
        by (simp add: isCyclical_edges.psimps)
    next
      case unv: False
      obtain found v' r' where res: "isCyclical_edges g identity compare ?x (edges g)
          (insert (identity ?x) visited) (insert (identity ?x) recursionStack) = (found, v', r')"
        using prod_cases3 by blast
      have sub: "insert (identity ?x) visited \<subseteq> v'"
        using 2(2)[OF match refl unv] res by simp
      show ?thesis
      proof (cases "found \<or> identity ?x \<in> r'")
        case True
        then show ?thesis using match unv res sub 2(1)
          by (auto simp add: isCyclical_edges.psimps)
      next
        case False
        then have "v' \<subseteq> fst (snd (isCyclical_edges g identity compare node rest v' r'))"
          using 2(3)[OF match refl unv res[symmetric] refl] by simp
        then show ?thesis using False match unv res sub 2(1)
          by (auto simp add: isCyclical_edges.psimps)
      qed
    qed
  qed
qed

text \<open>
  Termination: every recursive descent marks an identity of an edge target that was not
  yet visited, and the scan of one node walks down the edge list.
\<close>

lemma lex_step:
  "finite A \<Longrightarrow> A' \<subseteq> A \<Longrightarrow> n' < n \<Longrightarrow> ((A', n'), (A, n)) \<in> finite_psubset <*lex*> less_than"
  by (cases "A' = A") (auto simp: finite_psubset_def)

definition isCyclical_measure ::
  "('n Graph \<times> ('n \<Rightarrow> 'i) \<times> ('n \<Rightarrow> 'n \<Rightarrow> int) \<times> 'n \<times> 'n Edge list \<times> 'i set \<times> 'i set)
     \<Rightarrow> 'i set \<times> nat" where
  "isCyclical_measure = (\<lambda>(g, identity, compare, node, es, visited, recursionStack).
     (identity ` edge_to ` (set (edges g) \<union> set es) - visited, length es))"

termination isCyclical_edges
proof (relation "inv_image (finite_psubset <*lex*> less_than) isCyclical_measure", goal_cases)
  case 1
  then show ?case by auto
next
  case (2 g identity compare node edge rest visited recursionStack x)
  then show ?case
    by (auto simp: isCyclical_measure_def finite_psubset_def)
next
  case (3 g identity compare node edge rest visited recursionStack x xa y xb ya)
  from 3 have dom: "isCyclical_edges_dom (g, identity, compare, x, edges g,
      insert (identity x) visited, insert (identity x) recursionStack)" by simp
  from 3 have res: "isCyclical_edges g identity compare x (edges g)
      (insert (identity x) visited) (insert (identity x) recursionStack) = (xa, xb, ya)" by simp
  have "insert (identity x) visited \<subseteq> xb"
    using isCyclical_edges_dom_mono[OF dom] res by simp
  then show ?case
    unfolding isCyclical_measure_def in_inv_image prod.case
    by (intro lex_step) auto
next
  case (4 g identity compare node edge rest visited recursionStack x)
  then show ?case
    unfolding isCyclical_measure_def in_inv_image prod.case
    by (intro lex_step) auto
next
  case (5 g identity compare node edge rest visited recursionStack)
  then show ?case
    unfolding isCyclical_measure_def in_inv_image prod.case
    by (intro lex_step) auto
qed

definition isCyclical_dagDFS ::
  "'n Graph \<Rightarrow> ('n, 'i) NodeIdentitySupplier \<Rightarrow> 'n NodeComparator \<Rightarrow>
   'n \<Rightarrow> 'i set \<Rightarrow> 'i set \<Rightarrow> bool \<times> 'i set \<times> 'i set" where
  "isCyclical_dagDFS g identity compare node visited recursionStack =
     isCyclical_edges g identity compare node (edges g)
       (insert (identity node) visited) (insert (identity node) recursionStack)"

text \<open>The outer loop calls \<open>dagDFS\<close> on every node of the list, visited or not.\<close>

fun isCyclical_roots ::
  "'n Graph \<Rightarrow> ('n, 'i) NodeIdentitySupplier \<Rightarrow> 'n NodeComparator \<Rightarrow>
   'n list \<Rightarrow> 'i set \<Rightarrow> 'i set \<Rightarrow> bool" where
  "isCyclical_roots g identity compare [] visited recursionStack = False"
| "isCyclical_roots g identity compare (node # rest) visited recursionStack =
     (case isCyclical_dagDFS g identity compare node visited recursionStack of
        (found, visited', recursionStack') \<Rightarrow>
          if found then True
          else isCyclical_roots g identity compare rest visited' recursionStack')"

definition dagIsCyclicalDFS ::
  "'n Graph \<Rightarrow> ('n, 'i) NodeIdentitySupplier \<Rightarrow> 'n NodeComparator \<Rightarrow> bool" where
  "dagIsCyclicalDFS g identity compare = isCyclical_roots g identity compare (nodes g) {} {}"

section \<open>dagCyclesDFS\<close>

text \<open>
  The same search, which also keeps the path of nodes and the path of edges from the root
  to the current node. A node is pushed on entry and popped when its scan ends without a
  cycle; an edge is pushed before its target is looked at and popped after, unless a cycle
  was signalled, in which case the function returns at once. Popping an empty array does
  nothing, as \<open>butlast\<close> on the empty list.
\<close>

record 'n CycleRecord =
  cycleNodes :: "'n list"
  cycleEdges :: "'n Edge list"

function cycles_edges ::
  "'n Graph \<Rightarrow> ('n, 'i) NodeIdentitySupplier \<Rightarrow> 'n NodeComparator \<Rightarrow>
   'n \<Rightarrow> 'n Edge list \<Rightarrow> 'i set \<Rightarrow> 'i set \<Rightarrow> 'n list \<Rightarrow> 'n Edge list \<Rightarrow>
   bool \<times> 'i set \<times> 'i set \<times> 'n list \<times> 'n Edge list" where
  "cycles_edges g identity compare node [] visited recursionStack cNodes cEdges =
     (False, visited, recursionStack - {identity node}, butlast cNodes, cEdges)"
| "cycles_edges g identity compare node (edge # rest) visited recursionStack cNodes cEdges =
     (if compare (edge_from edge) node = 0 then
        (let neighbour = edge_to edge;
             cEdges1 = cEdges @ [edge] in
         if identity neighbour \<notin> visited then
           (case cycles_edges g identity compare neighbour (edges g)
                   (insert (identity neighbour) visited)
                   (insert (identity neighbour) recursionStack)
                   (cNodes @ [neighbour]) cEdges1 of
              (found, visited', recursionStack', cNodes', cEdges') \<Rightarrow>
                if found then (True, visited', recursionStack', cNodes', cEdges')
                else cycles_edges g identity compare node rest visited' recursionStack'
                       cNodes' (butlast cEdges'))
         else if identity neighbour \<in> recursionStack
           then (True, visited, recursionStack, cNodes, cEdges1)
         else cycles_edges g identity compare node rest visited recursionStack
                cNodes (butlast cEdges1))
      else cycles_edges g identity compare node rest visited recursionStack cNodes cEdges)"
  by pat_completeness auto

lemma cycles_edges_dom_mono:
  "cycles_edges_dom (g, identity, compare, node, es, visited, recursionStack, cNodes, cEdges) \<Longrightarrow>
   visited \<subseteq> fst (snd (cycles_edges g identity compare node es visited recursionStack cNodes cEdges))"
proof (induction g identity compare node es visited recursionStack cNodes cEdges
    rule: cycles_edges.pinduct)
  case (1 g identity compare node visited recursionStack cNodes cEdges)
  then show ?case by (simp add: cycles_edges.psimps Let_def)
next
  case (2 g identity compare node edge rest visited recursionStack cNodes cEdges)
  let ?x = "edge_to edge"
  show ?case
  proof (cases "compare (edge_from edge) node = 0")
    case False
    then show ?thesis using 2(1) 2(5) by (simp add: cycles_edges.psimps Let_def)
  next
    case match: True
    show ?thesis
    proof (cases "identity ?x \<in> visited")
      case True
      then show ?thesis using match 2(1) 2(4)[OF match refl refl]
        by (simp add: cycles_edges.psimps Let_def)
    next
      case unv: False
      obtain found v' r' cn' ce' where res: "cycles_edges g identity compare ?x (edges g)
          (insert (identity ?x) visited) (insert (identity ?x) recursionStack)
          (cNodes @ [?x]) (cEdges @ [edge]) = (found, v', r', cn', ce')"
        using prod_cases5 by blast
      have sub: "insert (identity ?x) visited \<subseteq> v'"
        using 2(2)[OF match refl refl unv] res by simp
      show ?thesis
      proof (cases found)
        case True
        then show ?thesis using match unv res sub 2(1)
          by (auto simp add: cycles_edges.psimps Let_def)
      next
        case False
        then have "v' \<subseteq> fst (snd (cycles_edges g identity compare node rest v' r' cn' (butlast ce')))"
          using 2(3)[OF match refl refl unv res[symmetric] refl refl refl] by simp
        then show ?thesis using False match unv res sub 2(1)
          by (auto simp add: cycles_edges.psimps Let_def)
      qed
    qed
  qed
qed

definition cycles_measure ::
  "('n Graph \<times> ('n \<Rightarrow> 'i) \<times> ('n \<Rightarrow> 'n \<Rightarrow> int) \<times> 'n \<times> 'n Edge list \<times> 'i set \<times> 'i set
      \<times> 'n list \<times> 'n Edge list) \<Rightarrow> 'i set \<times> nat" where
  "cycles_measure = (\<lambda>(g, identity, compare, node, es, visited, rest).
     (identity ` edge_to ` (set (edges g) \<union> set es) - visited, length es))"

termination cycles_edges
proof (relation "inv_image (finite_psubset <*lex*> less_than) cycles_measure", goal_cases)
  case 1
  then show ?case by auto
next
  case (2 g identity compare node edge rest visited recursionStack cNodes cEdges x xa)
  then show ?case
    by (auto simp: cycles_measure_def finite_psubset_def)
next
  case (3 g identity compare node edge rest visited recursionStack cNodes cEdges x xa xb y xc ya xd yb xe yc)
  from 3 have dom: "cycles_edges_dom (g, identity, compare, x, edges g,
      insert (identity x) visited, insert (identity x) recursionStack, cNodes @ [x], xa)" by simp
  from 3 have res: "cycles_edges g identity compare x (edges g)
      (insert (identity x) visited) (insert (identity x) recursionStack) (cNodes @ [x]) xa
       = (xb, xc, xd, xe, yc)" by simp
  have "insert (identity x) visited \<subseteq> xc"
    using cycles_edges_dom_mono[OF dom] res by simp
  then show ?case
    unfolding cycles_measure_def in_inv_image prod.case
    by (intro lex_step) auto
next
  case (4 g identity compare node edge rest visited recursionStack cNodes cEdges x xa)
  then show ?case
    unfolding cycles_measure_def in_inv_image prod.case
    by (intro lex_step) auto
next
  case (5 g identity compare node edge rest visited recursionStack cNodes cEdges)
  then show ?case
    unfolding cycles_measure_def in_inv_image prod.case
    by (intro lex_step) auto
qed

definition cycles_dagDFS ::
  "'n Graph \<Rightarrow> ('n, 'i) NodeIdentitySupplier \<Rightarrow> 'n NodeComparator \<Rightarrow>
   'n \<Rightarrow> 'i set \<Rightarrow> 'i set \<Rightarrow> 'n list \<Rightarrow> 'n Edge list \<Rightarrow>
   bool \<times> 'i set \<times> 'i set \<times> 'n list \<times> 'n Edge list" where
  "cycles_dagDFS g identity compare node visited recursionStack cNodes cEdges =
     cycles_edges g identity compare node (edges g)
       (insert (identity node) visited) (insert (identity node) recursionStack)
       (cNodes @ [node]) cEdges"

text \<open>
  The outer loop searches from every node that is not yet visited, with fresh paths, and
  appends the two paths as a record when the search reports a cycle. The recursion stack is
  shared by all roots and is not cleared after a cycle.
\<close>

fun cycles_roots ::
  "'n Graph \<Rightarrow> ('n, 'i) NodeIdentitySupplier \<Rightarrow> 'n NodeComparator \<Rightarrow>
   'n list \<Rightarrow> 'i set \<Rightarrow> 'i set \<Rightarrow> 'n CycleRecord list \<Rightarrow> 'n CycleRecord list" where
  "cycles_roots g identity compare [] visited recursionStack cycleList = cycleList"
| "cycles_roots g identity compare (node # rest) visited recursionStack cycleList =
     (if identity node \<notin> visited then
        (case cycles_dagDFS g identity compare node visited recursionStack [] [] of
           (found, visited', recursionStack', cNodes, cEdges) \<Rightarrow>
             cycles_roots g identity compare rest visited' recursionStack'
               (if found then cycleList @ [\<lparr>cycleNodes = cNodes, cycleEdges = cEdges\<rparr>]
                else cycleList))
      else cycles_roots g identity compare rest visited recursionStack cycleList)"

definition dagCyclesDFS ::
  "'n Graph \<Rightarrow> ('n, 'i) NodeIdentitySupplier \<Rightarrow> 'n NodeComparator \<Rightarrow> 'n CycleRecord list" where
  "dagCyclesDFS g identity compare = cycles_roots g identity compare (nodes g) {} {} []"



section \<open>dagTopologicalSortDFS\<close>

text \<open>
  The search of the topological sort marks the node, descends into the unvisited targets
  of its outgoing edges and then pushes the node on the stack. The outer loop starts it
  from every node of the list that is not yet visited, and the result is the stack
  reversed.
\<close>

function topologicalSort_edges ::
  "'n Graph \<Rightarrow> ('n, 'i) NodeIdentitySupplier \<Rightarrow> 'n NodeComparator \<Rightarrow>
   'n \<Rightarrow> 'n Edge list \<Rightarrow> 'i set \<Rightarrow> 'n list \<Rightarrow> 'i set \<times> 'n list" where
  "topologicalSort_edges g identity compare node [] visited stack = (visited, stack @ [node])"
| "topologicalSort_edges g identity compare node (edge # rest) visited stack =
     (if compare (edge_from edge) node = 0 then
        (let neighbour = edge_to edge in
         if identity neighbour \<notin> visited then
           (case topologicalSort_edges g identity compare neighbour (edges g)
                   (insert (identity neighbour) visited) stack of
              (visited', stack') \<Rightarrow>
                topologicalSort_edges g identity compare node rest visited' stack')
         else topologicalSort_edges g identity compare node rest visited stack)
      else topologicalSort_edges g identity compare node rest visited stack)"
  by pat_completeness auto

lemma topologicalSort_edges_dom_mono:
  "topologicalSort_edges_dom (g, identity, compare, node, es, visited, stack) \<Longrightarrow>
   visited \<subseteq> fst (topologicalSort_edges g identity compare node es visited stack)"
proof (induction g identity compare node es visited stack rule: topologicalSort_edges.pinduct)
  case (1 g identity compare node visited stack)
  then show ?case by (simp add: topologicalSort_edges.psimps)
next
  case (2 g identity compare node edge rest visited stack)
  let ?x = "edge_to edge"
  show ?case
  proof (cases "compare (edge_from edge) node = 0")
    case False
    then show ?thesis using 2(1) 2(5) by (simp add: topologicalSort_edges.psimps)
  next
    case match: True
    show ?thesis
    proof (cases "identity ?x \<in> visited")
      case True
      then show ?thesis using match 2(1) 2(4)[OF match refl]
        by (simp add: topologicalSort_edges.psimps)
    next
      case unv: False
      obtain v' s' where res: "topologicalSort_edges g identity compare ?x (edges g)
          (insert (identity ?x) visited) stack = (v', s')"
        by fastforce
      have sub: "insert (identity ?x) visited \<subseteq> v'"
        using 2(2)[OF match refl unv] res by simp
      have "v' \<subseteq> fst (topologicalSort_edges g identity compare node rest v' s')"
        using 2(3)[OF match refl unv res[symmetric]] by simp
      then show ?thesis using match unv res sub 2(1)
        by (auto simp add: topologicalSort_edges.psimps)
    qed
  qed
qed

definition topologicalSort_measure ::
  "('n Graph \<times> ('n \<Rightarrow> 'i) \<times> ('n \<Rightarrow> 'n \<Rightarrow> int) \<times> 'n \<times> 'n Edge list \<times> 'i set \<times> 'n list)
     \<Rightarrow> 'i set \<times> nat" where
  "topologicalSort_measure = (\<lambda>(g, identity, compare, node, es, visited, stack).
     (identity ` edge_to ` (set (edges g) \<union> set es) - visited, length es))"

termination topologicalSort_edges
proof (relation "inv_image (finite_psubset <*lex*> less_than) topologicalSort_measure", goal_cases)
  case 1
  then show ?case by auto
next
  case (2 g identity compare node edge rest visited stack x)
  then show ?case
    by (auto simp: topologicalSort_measure_def finite_psubset_def)
next
  case (3 g identity compare node edge rest visited stack x xa y)
  from 3 have dom: "topologicalSort_edges_dom (g, identity, compare, x, edges g,
      insert (identity x) visited, stack)" by simp
  from 3 have res: "topologicalSort_edges g identity compare x (edges g)
      (insert (identity x) visited) stack = (xa, y)" by simp
  have "insert (identity x) visited \<subseteq> xa"
    using topologicalSort_edges_dom_mono[OF dom] res by simp
  then show ?case
    unfolding topologicalSort_measure_def in_inv_image prod.case
    by (intro lex_step) auto
next
  case (4 g identity compare node edge rest visited stack x)
  then show ?case
    unfolding topologicalSort_measure_def in_inv_image prod.case
    by (intro lex_step) auto
next
  case (5 g identity compare node edge rest visited stack)
  then show ?case
    unfolding topologicalSort_measure_def in_inv_image prod.case
    by (intro lex_step) auto
qed

definition topologicalSort_dagDFS ::
  "'n Graph \<Rightarrow> ('n, 'i) NodeIdentitySupplier \<Rightarrow> 'n NodeComparator \<Rightarrow>
   'n \<Rightarrow> 'i set \<Rightarrow> 'n list \<Rightarrow> 'i set \<times> 'n list" where
  "topologicalSort_dagDFS g identity compare node visited stack =
     topologicalSort_edges g identity compare node (edges g)
       (insert (identity node) visited) stack"

fun topologicalSort_roots ::
  "'n Graph \<Rightarrow> ('n, 'i) NodeIdentitySupplier \<Rightarrow> 'n NodeComparator \<Rightarrow>
   'n list \<Rightarrow> 'i set \<Rightarrow> 'n list \<Rightarrow> 'i set \<times> 'n list" where
  "topologicalSort_roots g identity compare [] visited stack = (visited, stack)"
| "topologicalSort_roots g identity compare (node # rest) visited stack =
     (if identity node \<notin> visited then
        (case topologicalSort_dagDFS g identity compare node visited stack of
           (visited', stack') \<Rightarrow> topologicalSort_roots g identity compare rest visited' stack')
      else topologicalSort_roots g identity compare rest visited stack)"

definition dagTopologicalSortDFS ::
  "'n Graph \<Rightarrow> ('n, 'i) NodeIdentitySupplier \<Rightarrow> 'n NodeComparator \<Rightarrow> 'n list" where
  "dagTopologicalSortDFS g identity compare =
     rev (snd (topologicalSort_roots g identity compare (nodes g) {} []))"

section \<open>dagDependencies\<close>

record 'n Dependencies =
  dependencies :: "'n list"
  dependents :: "'n list"

text \<open>
  The index over the topological sort: position \<open>i\<close> is stored under the identity of the
  \<open>i\<close>-th node, a later position replacing an earlier one stored under the same identity.
\<close>

definition nodeIndex_of :: "('n, 'i) NodeIdentitySupplier \<Rightarrow> 'n list \<Rightarrow> ('i \<rightharpoonup> nat)" where
  "nodeIndex_of identity topologicalSort =
     fold (\<lambda>i nodeIndex. nodeIndex(identity (topologicalSort ! i) \<mapsto> i))
       [0..<length topologicalSort] Map.empty"

text \<open>
  The two loops that walk away from the target: downwards from \<open>targetIndex - 1\<close> to \<open>0\<close>, and
  upwards from \<open>targetIndex + 1\<close> to the end. Each step marks the node's identity as visited
  and pushes the node on its list.
\<close>

definition deps_visit ::
  "('n, 'i) NodeIdentitySupplier \<Rightarrow> 'n list \<Rightarrow> nat list \<Rightarrow> 'i set \<times> 'n list \<Rightarrow> 'i set \<times> 'n list" where
  "deps_visit identity topologicalSort indices =
     fold (\<lambda>i (visited, acc). (insert (identity (topologicalSort ! i)) visited,
                                  acc @ [topologicalSort ! i])) indices"

text \<open>The last loop: the nodes of the graph that are not visited, classified by the comparator.\<close>

fun deps_remaining ::
  "('n, 'i) NodeIdentitySupplier \<Rightarrow> 'n NodeComparator \<Rightarrow> 'n \<Rightarrow> 'i set \<Rightarrow>
   'n list \<Rightarrow> 'n list \<Rightarrow> 'n list \<Rightarrow> 'n Dependencies" where
  "deps_remaining identity compare targetNode visited [] deps depts =
     \<lparr>dependencies = deps, dependents = depts\<rparr>"
| "deps_remaining identity compare targetNode visited (node # rest) deps depts =
     (if identity node \<notin> visited then
        (if compare node targetNode < 0 then
           deps_remaining identity compare targetNode visited rest (deps @ [node]) depts
         else if compare node targetNode > 0 then
           deps_remaining identity compare targetNode visited rest deps (depts @ [node])
         else deps_remaining identity compare targetNode visited rest deps depts)
      else deps_remaining identity compare targetNode visited rest deps depts)"

definition dagDependencies ::
  "'n Graph \<Rightarrow> ('n, 'i) NodeIdentitySupplier \<Rightarrow> 'n NodeComparator \<Rightarrow>
   ('n Graph \<Rightarrow> ('n, 'i) NodeIdentitySupplier \<Rightarrow> 'n NodeComparator \<Rightarrow> 'n list) \<Rightarrow>
   'n \<Rightarrow> 'n Dependencies" where
  "dagDependencies g identity compare topologicalSortSupplier targetNode =
     (let topologicalSort = topologicalSortSupplier g identity compare;
          nodeIndex = nodeIndex_of identity topologicalSort
      in case nodeIndex (identity targetNode) of
           Some targetIndex \<Rightarrow>
             (case deps_visit identity topologicalSort (rev [0..<targetIndex]) ({}, []) of
                (visited1, deps) \<Rightarrow>
                  (case deps_visit identity topologicalSort
                          [targetIndex + 1..<length topologicalSort] (visited1, []) of
                     (visited2, depts) \<Rightarrow>
                       deps_remaining identity compare targetNode visited2 (nodes g) deps depts))
         | None \<Rightarrow> deps_remaining identity compare targetNode {} (nodes g) [] [])"

text \<open>The facade binds the depth-first topological sort as the supplier.\<close>

definition dagDepthFirst_deps ::
  "('n, 'i) NodeIdentitySupplier \<Rightarrow> 'n NodeComparator \<Rightarrow> 'n Graph \<Rightarrow> 'n \<Rightarrow> 'n Dependencies" where
  "dagDepthFirst_deps identity compare g node =
     dagDependencies g identity compare dagTopologicalSortDFS node"

section \<open>graphPlantUmlDiagram\<close>









section \<open>Specification vocabulary\<close>

text \<open>
  The edge relation of a graph, the nodes it mentions, and the two conditions the
  algorithms expect of their callers: edges run between listed nodes, and the identity
  function and the comparator agree with equality of nodes.
\<close>

definition edge_rel :: "'n Graph \<Rightarrow> ('n \<times> 'n) set" where
  "edge_rel g = (\<lambda>e. (edge_from e, edge_to e)) ` set (edges g)"

definition graph_nodes :: "'n Graph \<Rightarrow> 'n set" where
  "graph_nodes g = set (nodes g) \<union> edge_from ` set (edges g) \<union> edge_to ` set (edges g)"

definition endpoints_in_nodes :: "'n Graph \<Rightarrow> bool" where
  "endpoints_in_nodes g =
     (\<forall>e \<in> set (edges g). edge_from e \<in> set (nodes g) \<and> edge_to e \<in> set (nodes g))"

definition consistent_on ::
  "'n set \<Rightarrow> ('n, 'i) NodeIdentitySupplier \<Rightarrow> 'n NodeComparator \<Rightarrow> bool" where
  "consistent_on N identity compare =
     (inj_on identity N \<and>
      (\<forall>a \<in> N. \<forall>b \<in> N. (compare a b = 0) = (identity a = identity b)))"

definition graph_has_cycle :: "'n Graph \<Rightarrow> bool" where
  "graph_has_cycle g = (\<exists>x. (x, x) \<in> (edge_rel g)\<^sup>+)"

text \<open>
  Node \<open>a\<close> occurs strictly before node \<open>b\<close> in a sequence: both occur, and every
  position that holds \<open>a\<close> is smaller than every position that holds \<open>b\<close>.
\<close>

definition appears_before :: "'n list \<Rightarrow> 'n \<Rightarrow> 'n \<Rightarrow> bool" where
  "appears_before xs a b =
     (a \<in> set xs \<and> b \<in> set xs \<and>
      (\<forall>i j. i < length xs \<longrightarrow> j < length xs \<longrightarrow> xs ! i = a \<longrightarrow> xs ! j = b \<longrightarrow> i < j))"

text \<open>
  A stack is in postorder when every node on it comes after the targets of all its
  outgoing edges.
\<close>

definition postorder_ok :: "'n Graph \<Rightarrow> 'n list \<Rightarrow> bool" where
  "postorder_ok g stack =
     (\<forall>i < length stack. \<forall>e \<in> set (edges g).
        edge_from e = stack ! i \<longrightarrow> (\<exists>j < i. stack ! j = edge_to e))"

text \<open>
  What holds whenever the scan of \<open>node\<close> in the topological sort stands before the
  remaining edges, \<open>seen\<close> being the edges already scanned: everything on the stack is
  visited, the stack is in postorder, no visited node that is not yet on the stack can be
  reached from \<open>node\<close>, and the targets of the outgoing edges already scanned are on the
  stack.
\<close>

definition topo_inv ::
  "'n Graph \<Rightarrow> ('n \<Rightarrow> 'i) \<Rightarrow> 'n \<Rightarrow> 'n Edge list \<Rightarrow> 'i set \<Rightarrow> 'n list \<Rightarrow> bool" where
  "topo_inv g identity node seen visited stack =
     (node \<in> graph_nodes g \<and> identity node \<in> visited \<and>
      identity ` set stack \<subseteq> visited \<and> set stack \<subseteq> graph_nodes g \<and>
      postorder_ok g stack \<and>
      (\<forall>x \<in> graph_nodes g. identity x \<in> visited \<longrightarrow> x \<notin> set stack \<longrightarrow>
         (node, x) \<notin> (edge_rel g)\<^sup>+) \<and>
      (\<forall>e \<in> set seen. edge_from e = node \<longrightarrow> edge_to e \<in> set stack))"

text \<open>
  The identities in \<open>F\<close> are finished: edges out of them lead into \<open>F\<close> again, and no cycle
  passes through a node whose identity is in \<open>F\<close>.
\<close>

definition finished_ok :: "'n Graph \<Rightarrow> ('n \<Rightarrow> 'i) \<Rightarrow> 'i set \<Rightarrow> bool" where
  "finished_ok g identity F =
     ((\<forall>e \<in> set (edges g). identity (edge_from e) \<in> F \<longrightarrow> identity (edge_to e) \<in> F) \<and>
      (\<forall>x \<in> graph_nodes g. identity x \<in> F \<longrightarrow> (x, x) \<notin> (edge_rel g)\<^sup>+))"

text \<open>
  What holds whenever the scan of \<open>node\<close> in the cycle check stands before the remaining
  edges: the node is on the recursion stack, the visited identities not on the stack are
  finished, every node on the stack reaches \<open>node\<close>, and the targets of the outgoing edges
  already scanned are finished.
\<close>

definition isCyclical_inv ::
  "'n Graph \<Rightarrow> ('n \<Rightarrow> 'i) \<Rightarrow> 'n \<Rightarrow> 'n Edge list \<Rightarrow> 'i set \<Rightarrow> 'i set \<Rightarrow> bool" where
  "isCyclical_inv g identity node seen visited recursionStack =
     (node \<in> graph_nodes g \<and> identity node \<in> recursionStack \<and> recursionStack \<subseteq> visited \<and>
      finished_ok g identity (visited - recursionStack) \<and>
      (\<forall>x \<in> graph_nodes g. identity x \<in> recursionStack \<longrightarrow> (x, node) \<in> (edge_rel g)\<^sup>*) \<and>
      (\<forall>e \<in> set seen. edge_from e = node \<longrightarrow> identity (edge_to e) \<in> visited - recursionStack))"






section \<open>Reference cycle check\<close>

text \<open>
  The cycle check as the specification words it: a depth-first search from every node
  not yet visited. It differs from \<open>isCyclical_roots\<close> in the outer loop only, which skips
  a start node whose identity is already in \<open>visited\<close>.
\<close>

fun isCyclical_ref_roots ::
  "'n Graph \<Rightarrow> ('n, 'i) NodeIdentitySupplier \<Rightarrow> 'n NodeComparator \<Rightarrow>
   'n list \<Rightarrow> 'i set \<Rightarrow> 'i set \<Rightarrow> bool" where
  "isCyclical_ref_roots g identity compare [] visited recursionStack = False"
| "isCyclical_ref_roots g identity compare (node # rest) visited recursionStack =
     (if identity node \<notin> visited then
        (case isCyclical_dagDFS g identity compare node visited recursionStack of
           (found, visited', recursionStack') \<Rightarrow>
             if found then True
             else isCyclical_ref_roots g identity compare rest visited' recursionStack')
      else isCyclical_ref_roots g identity compare rest visited recursionStack)"

definition dagIsCyclicalDFS_ref ::
  "'n Graph \<Rightarrow> ('n, 'i) NodeIdentitySupplier \<Rightarrow> 'n NodeComparator \<Rightarrow> bool" where
  "dagIsCyclicalDFS_ref g identity compare =
     isCyclical_ref_roots g identity compare (nodes g) {} {}"

section \<open>Properties\<close>

subsection \<open>Diagram exporter\<close>






subsection \<open>Cycle records: the two paths\<close>

lemma cycles_edges_paths:
  "cycles_edges g identity compare node es visited recursionStack cNodes cEdges =
     (found, visited', recursionStack', cNodes', cEdges') \<Longrightarrow>
   (\<not> found \<longrightarrow> cNodes' = butlast cNodes \<and> cEdges' = cEdges) \<and>
   (found \<longrightarrow> (\<exists>ns. cNodes' = cNodes @ ns) \<and> (\<exists>more. more \<noteq> [] \<and> cEdges' = cEdges @ more))"
proof (induction g identity compare node es visited recursionStack cNodes cEdges
    arbitrary: found visited' recursionStack' cNodes' cEdges' rule: cycles_edges.induct)
  case (1 g identity compare node visited recursionStack cNodes cEdges)
  then show ?case by auto
next
  case (2 g identity compare node edge rest visited recursionStack cNodes cEdges)
  let ?x = "edge_to edge"
  show ?case
  proof (cases "compare (edge_from edge) node = 0")
    case False
    then show ?thesis using 2(4)[OF False] 2(5) by simp
  next
    case match: True
    show ?thesis
    proof (cases "identity ?x \<in> visited")
      case vis: True
      show ?thesis
      proof (cases "identity ?x \<in> recursionStack")
        case True
        then show ?thesis using match vis 2(5) by auto
      next
        case False
        then show ?thesis using match vis 2(5) 2(3)[OF match refl refl _ False, of found visited' recursionStack' cNodes' cEdges']
          by auto
      qed
    next
      case unv: False
      obtain f1 v1 r1 cn1 ce1 where res: "cycles_edges g identity compare ?x (edges g)
          (insert (identity ?x) visited) (insert (identity ?x) recursionStack)
          (cNodes @ [?x]) (cEdges @ [edge]) = (f1, v1, r1, cn1, ce1)"
        using prod_cases5 by blast
      note ih1 = 2(1)[OF match refl refl unv res]
      show ?thesis
      proof (cases f1)
        case True
        then show ?thesis using match unv res ih1 2(5) by auto
      next
        case False
        have eq: "cycles_edges g identity compare node rest v1 r1 cn1 (butlast ce1)
            = (found, visited', recursionStack', cNodes', cEdges')"
          using False match unv res 2(5) by simp
        note ih2 = 2(2)[OF match refl refl unv res[symmetric] refl refl refl False eq]
        show ?thesis using ih1 ih2 False by auto
      qed
    qed
  qed
qed

lemma cycles_dagDFS_paths:
  "cycles_dagDFS g identity compare node visited recursionStack cNodes cEdges =
     (found, visited', recursionStack', cNodes', cEdges') \<Longrightarrow>
   (\<not> found \<longrightarrow> cNodes' = cNodes \<and> cEdges' = cEdges) \<and>
   (found \<longrightarrow> (\<exists>ns. cNodes' = cNodes @ node # ns) \<and>
              (\<exists>more. more \<noteq> [] \<and> cEdges' = cEdges @ more))"
  unfolding cycles_dagDFS_def
  by (drule cycles_edges_paths) auto

text \<open>
  C4 as stated fails: on the one-node graph with a self-loop the exploration of the
  neighbour signals a cycle, and the edge pushed for it is still on \<open>cycleEdges\<close> when the
  call returns.
\<close>

theorem cycles_edge_not_popped_on_cycle:
  "cycles_dagDFS \<lparr>nodes = [0::nat], edges = [\<lparr>edge_from = 0, edge_to = 0\<rparr>]\<rparr>
      (\<lambda>n. n) (\<lambda>a b. int a - int b) 0 {} {} [] []
   = (True, {0}, {0}, [0], [\<lparr>edge_from = 0, edge_to = 0\<rparr>])"
  by (simp add: cycles_dagDFS_def)

text \<open>
  C4, amended: the edge pushed for a neighbour is popped just after exploring it exactly
  when the exploration signals no cycle; the scan then goes on with the remaining edges
  and the edge path it had before the push. When the exploration signals a cycle the
  scan returns true at once and the edge, with whatever was pushed after it, stays on the
  edge path.
\<close>

theorem cycles_edge_popped_unless_cycle:
  assumes "compare (edge_from edge) node = 0"
      and "(if identity (edge_to edge) \<notin> visited
            then cycles_dagDFS g identity compare (edge_to edge) visited recursionStack
                   cNodes (cEdges @ [edge])
            else (identity (edge_to edge) \<in> recursionStack, visited, recursionStack,
                   cNodes, cEdges @ [edge]))
           = (found, visited', recursionStack', cNodes', cEdges')"
  shows "(\<not> found \<longrightarrow>
            cEdges' = cEdges @ [edge] \<and> butlast cEdges' = cEdges \<and>
            cycles_edges g identity compare node (edge # rest) visited recursionStack cNodes cEdges
              = cycles_edges g identity compare node rest visited' recursionStack' cNodes' cEdges)
       \<and> (found \<longrightarrow>
            (\<exists>more. cEdges' = cEdges @ [edge] @ more) \<and>
            cycles_edges g identity compare node (edge # rest) visited recursionStack cNodes cEdges
              = (True, visited', recursionStack', cNodes', cEdges'))"
proof (cases "identity (edge_to edge) \<in> visited")
  case True
  then show ?thesis using assms by (auto simp: Let_def)
next
  case False
  then have res: "cycles_dagDFS g identity compare (edge_to edge) visited recursionStack
                   cNodes (cEdges @ [edge]) = (found, visited', recursionStack', cNodes', cEdges')"
    using assms(2) by simp
  from cycles_dagDFS_paths[OF res]
  have p: "\<not> found \<longrightarrow> cEdges' = cEdges @ [edge]"
    and q: "found \<longrightarrow> (\<exists>more. cEdges' = cEdges @ [edge] @ more)"
    by auto
  show ?thesis
    using False assms(1) res p q
    by (auto simp: Let_def cycles_dagDFS_def)
qed

theorem cycles_edge_popped_unless_cycle_witness:
  "cycles_edges \<lparr>nodes = [0::nat, 1], edges = [\<lparr>edge_from = 0, edge_to = 1\<rparr>]\<rparr>
      (\<lambda>n. n) (\<lambda>a b. int a - int b) 0 [\<lparr>edge_from = 0, edge_to = 1\<rparr>] {0} {0} [0] []
   = cycles_edges \<lparr>nodes = [0::nat, 1], edges = [\<lparr>edge_from = 0, edge_to = 1\<rparr>]\<rparr>
      (\<lambda>n. n) (\<lambda>a b. int a - int b) 0 [] {0, 1} {0} [0] []"
  using cycles_edge_popped_unless_cycle[of "\<lambda>a b. int a - int b" "\<lparr>edge_from = 0, edge_to = 1\<rparr>"
      "0::nat" "\<lambda>n. n" "{0}" "\<lparr>nodes = [0::nat, 1], edges = [\<lparr>edge_from = 0, edge_to = 1\<rparr>]\<rparr>"
      "{0}" "[0]" "[]" False "{0, 1}" "{0}" "[0]" "[\<lparr>edge_from = 0, edge_to = 1\<rparr>]" "[]"]
  by (auto simp add: cycles_dagDFS_def insert_commute)










lemma deps_remaining_filter:
  "deps_remaining identity compare targetNode visited ns deps depts =
     \<lparr>dependencies = deps @ filter (\<lambda>n. identity n \<notin> visited \<and> compare n targetNode < 0) ns,
      dependents = depts @ filter (\<lambda>n. identity n \<notin> visited \<and> 0 < compare n targetNode) ns\<rparr>"
  by (induction ns arbitrary: deps depts) auto

subsection \<open>Topological sort: what is pushed\<close>

text \<open>
  Every call pushes the node it was called on last, after nodes whose identities are
  exactly the identities it newly marked; all of them are targets of edges.
\<close>

lemma topologicalSort_edges_content:
  "topologicalSort_edges g identity compare node es visited stack = (visited', stack') \<Longrightarrow>
   visited \<subseteq> visited' \<and>
   (\<exists>new. stack' = stack @ new @ [node] \<and> distinct (map identity new) \<and>
          identity ` set new = visited' - visited \<and>
          set new \<subseteq> edge_to ` (set (edges g) \<union> set es))"
proof (induction g identity compare node es visited stack arbitrary: visited' stack'
    rule: topologicalSort_edges.induct)
  case (1 g identity compare node visited stack)
  then show ?case by auto
next
  case (2 g identity compare node edge rest visited stack)
  let ?x = "edge_to edge"
  show ?case
  proof (cases "compare (edge_from edge) node = 0 \<and> identity ?x \<notin> visited")
    case False
    then have eq: "topologicalSort_edges g identity compare node rest visited stack = (visited', stack')"
      using 2(5) by (auto simp: Let_def split: if_splits)
    have "visited \<subseteq> visited' \<and>
      (\<exists>new. stack' = stack @ new @ [node] \<and> distinct (map identity new) \<and>
          identity ` set new = visited' - visited \<and>
          set new \<subseteq> edge_to ` (set (edges g) \<union> set rest))"
    proof (cases "compare (edge_from edge) node = 0")
      case True
      with False have "\<not> identity ?x \<notin> visited" by simp
      from 2(3)[OF True refl this eq] show ?thesis .
    next
      case False
      from 2(4)[OF False eq] show ?thesis .
    qed
    then show ?thesis by auto
  next
    case True
    then have match: "compare (edge_from edge) node = 0" and unv: "identity ?x \<notin> visited"
      by auto
    obtain v1 s1 where res: "topologicalSort_edges g identity compare ?x (edges g)
          (insert (identity ?x) visited) stack = (v1, s1)"
      by fastforce
    have eq: "topologicalSort_edges g identity compare node rest v1 s1 = (visited', stack')"
      using 2(5) match unv res by simp
    from 2(1)[OF match refl unv res] obtain new1 where
      1: "insert (identity ?x) visited \<subseteq> v1" "s1 = stack @ new1 @ [?x]"
         "distinct (map identity new1)" "identity ` set new1 = v1 - insert (identity ?x) visited"
         "set new1 \<subseteq> edge_to ` set (edges g)"
      by auto
    from 2(2)[OF match refl unv res[symmetric] eq] obtain new2 where
      2: "v1 \<subseteq> visited'" "stack' = s1 @ new2 @ [node]"
         "distinct (map identity new2)" "identity ` set new2 = visited' - v1"
         "set new2 \<subseteq> edge_to ` (set (edges g) \<union> set rest)"
      by auto
    let ?new = "new1 @ [?x] @ new2"
    have a: "stack' = stack @ ?new @ [node]" using 1 2 by simp
    have b: "distinct (map identity ?new)"
      using 1 2 unv by (auto simp: image_iff)
    have c: "identity ` set ?new = visited' - visited"
      using 1 2 unv by (auto simp: image_Un)
    have d: "set ?new \<subseteq> edge_to ` (set (edges g) \<union> set (edge # rest))"
      using 1 2 by auto
    have "visited \<subseteq> visited'" using 1 2 by auto
    with a b c d show ?thesis by blast
  qed
qed

lemma topologicalSort_dagDFS_content:
  assumes "topologicalSort_dagDFS g identity compare node visited stack = (visited', stack')"
      and "identity node \<notin> visited"
  shows "visited \<subseteq> visited' \<and> identity node \<in> visited' \<and>
         (\<exists>new. stack' = stack @ new \<and> distinct (map identity new) \<and>
                identity ` set new = visited' - visited \<and>
                set new \<subseteq> insert node (edge_to ` set (edges g)))"
proof -
  from topologicalSort_edges_content[OF assms(1)[unfolded topologicalSort_dagDFS_def]]
  obtain new where
    1: "insert (identity node) visited \<subseteq> visited'" "stack' = stack @ new @ [node]"
       "distinct (map identity new)" "identity ` set new = visited' - insert (identity node) visited"
       "set new \<subseteq> edge_to ` set (edges g)"
    by auto
  have "distinct (map identity (new @ [node]))" using 1 by auto
  moreover have "identity ` set (new @ [node]) = visited' - visited"
    using 1 assms(2) by auto
  moreover have "set (new @ [node]) \<subseteq> insert node (edge_to ` set (edges g))"
    using 1 by auto
  ultimately show ?thesis using 1 by (intro conjI exI[of _ "new @ [node]"]) auto
qed

lemma topologicalSort_roots_content:
  "topologicalSort_roots g identity compare ns visited stack = (visited', stack') \<Longrightarrow>
   visited' = visited \<union> identity ` set ns \<union> (visited' - visited) \<and>
   (\<exists>new. stack' = stack @ new \<and> distinct (map identity new) \<and>
          identity ` set new = visited' - visited \<and>
          set new \<subseteq> set ns \<union> edge_to ` set (edges g))"
proof (induction ns arbitrary: visited stack)
  case Nil
  then show ?case by auto
next
  case (Cons node rest)
  show ?case
  proof (cases "identity node \<in> visited")
    case True
    with Cons.prems have "topologicalSort_roots g identity compare rest visited stack = (visited', stack')"
      by simp
    from Cons.IH[OF this] True show ?thesis by auto
  next
    case False
    obtain v1 s1 where res: "topologicalSort_dagDFS g identity compare node visited stack = (v1, s1)"
      by fastforce
    with Cons.prems False
    have eq: "topologicalSort_roots g identity compare rest v1 s1 = (visited', stack')"
      by simp
    from topologicalSort_dagDFS_content[OF res False] obtain new1 where
      1: "visited \<subseteq> v1" "identity node \<in> v1" "s1 = stack @ new1"
         "distinct (map identity new1)" "identity ` set new1 = v1 - visited"
         "set new1 \<subseteq> insert node (edge_to ` set (edges g))"
      by auto
    from Cons.IH[OF eq] obtain new2 where
      2: "visited' = v1 \<union> identity ` set rest \<union> (visited' - v1)" "stack' = s1 @ new2"
         "distinct (map identity new2)" "identity ` set new2 = visited' - v1"
         "set new2 \<subseteq> set rest \<union> edge_to ` set (edges g)"
      by auto
    have sub: "v1 \<subseteq> visited'" using 2(1) by auto
    have a: "stack' = stack @ (new1 @ new2)" using 1 2 by simp
    have b: "distinct (map identity (new1 @ new2))" using 1 2 by auto
    have c: "identity ` set (new1 @ new2) = visited' - visited"
      using 1 2 sub by (auto simp: image_Un)
    have d: "set (new1 @ new2) \<subseteq> set (node # rest) \<union> edge_to ` set (edges g)"
      using 1 2 by auto
    have e: "visited' = visited \<union> identity ` set (node # rest) \<union> (visited' - visited)"
      using 1 2(1) sub by auto
    from a b c d e show ?thesis by blast
  qed
qed

text \<open>
  The result of the sort, whatever the graph: no identity occurs twice, the identities are
  those of the listed nodes and of whatever else was reached, and every element is a listed
  node or the target of an edge.
\<close>

lemma dagTopologicalSortDFS_content:
  "distinct (map identity (dagTopologicalSortDFS g identity compare)) \<and>
   identity ` set (nodes g) \<subseteq> identity ` set (dagTopologicalSortDFS g identity compare) \<and>
   set (dagTopologicalSortDFS g identity compare) \<subseteq> set (nodes g) \<union> edge_to ` set (edges g)"
proof -
  obtain v s where res: "topologicalSort_roots g identity compare (nodes g) {} [] = (v, s)"
    by fastforce
  from topologicalSort_roots_content[OF res] obtain new where
    1: "v = {} \<union> identity ` set (nodes g) \<union> (v - {})" "s = [] @ new" "distinct (map identity new)"
       "identity ` set new = v - {}" "set new \<subseteq> set (nodes g) \<union> edge_to ` set (edges g)"
    by blast
  have r: "dagTopologicalSortDFS g identity compare = rev s"
    by (simp add: dagTopologicalSortDFS_def res)
  have "distinct (map identity (rev s))" using 1 by (simp add: rev_map[symmetric])
  moreover have "identity ` set (nodes g) \<subseteq> identity ` set (rev s)" using 1 by auto
  moreover have "set (rev s) \<subseteq> set (nodes g) \<union> edge_to ` set (edges g)" using 1 by auto
  ultimately show ?thesis unfolding r by blast
qed

text \<open>
  C10: when the identity function is injective on the listed nodes and every edge endpoint
  is listed, the result of the sort has no repetition and holds exactly the listed nodes;
  it is a permutation of the node list when that list has no repetition either. The
  comparator plays no part in this.
\<close>

theorem topologicalSort_is_permutation:
  assumes "inj_on identity (set (nodes g))"
      and "endpoints_in_nodes g"
  shows "distinct (dagTopologicalSortDFS g identity compare) \<and>
         set (dagTopologicalSortDFS g identity compare) = set (nodes g) \<and>
         (distinct (nodes g) \<longrightarrow>
            mset (dagTopologicalSortDFS g identity compare) = mset (nodes g))"
proof -
  let ?r = "dagTopologicalSortDFS g identity compare"
  from dagTopologicalSortDFS_content[of identity g compare]
  have d: "distinct (map identity ?r)"
    and i: "identity ` set (nodes g) \<subseteq> identity ` set ?r"
    and s: "set ?r \<subseteq> set (nodes g) \<union> edge_to ` set (edges g)"
    by auto
  have sub: "set ?r \<subseteq> set (nodes g)"
    using s assms(2) by (auto simp: endpoints_in_nodes_def)
  have "set (nodes g) \<subseteq> set ?r"
  proof
    fix x assume x: "x \<in> set (nodes g)"
    with i obtain y where y: "y \<in> set ?r" "identity y = identity x" by auto
    with sub have "y \<in> set (nodes g)" by auto
    with assms(1) x y have "y = x" by (auto dest: inj_onD)
    with y show "x \<in> set ?r" by simp
  qed
  with sub have eq: "set ?r = set (nodes g)" by auto
  moreover have dr: "distinct ?r" using d by (simp add: distinct_map)
  moreover have "distinct (nodes g) \<longrightarrow> mset ?r = mset (nodes g)"
    using eq dr by (auto simp: set_eq_iff_mset_eq_distinct)
  ultimately show ?thesis by blast
qed

theorem topologicalSort_is_permutation_witness:
  "mset (dagTopologicalSortDFS
      \<lparr>nodes = [0::nat, 1, 2], edges = [\<lparr>edge_from = 2, edge_to = 1\<rparr>, \<lparr>edge_from = 1, edge_to = 0\<rparr>]\<rparr>
      (\<lambda>n. n) (\<lambda>a b. int a - int b)) = mset [0, 1, 2]"
  using topologicalSort_is_permutation[of "\<lambda>n. n"
      "\<lparr>nodes = [0::nat, 1, 2], edges = [\<lparr>edge_from = 2, edge_to = 1\<rparr>, \<lparr>edge_from = 1, edge_to = 0\<rparr>]\<rparr>"
      "\<lambda>a b. int a - int b"]
  by (simp add: endpoints_in_nodes_def)

text \<open>Without the endpoint condition the target of a dangling edge is part of the result.\<close>

lemma topologicalSort_dangling_example:
  "dagTopologicalSortDFS \<lparr>nodes = [0::nat], edges = [\<lparr>edge_from = 0, edge_to = 1\<rparr>]\<rparr>
      (\<lambda>n. n) (\<lambda>a b. int a - int b) = [0, 1]"
  by (simp add: dagTopologicalSortDFS_def topologicalSort_dagDFS_def)

subsection \<open>Dependencies and dependents\<close>

lemma nodeIndex_fold_Suc:
  "fold (\<lambda>i nodeIndex. nodeIndex(identity (xs ! i) \<mapsto> i)) [0..<Suc n] Map.empty =
   (fold (\<lambda>i nodeIndex. nodeIndex(identity (xs ! i) \<mapsto> i)) [0..<n] Map.empty)
     (identity (xs ! n) \<mapsto> n)"
  by simp

lemma nodeIndex_fold_Some:
  "fold (\<lambda>i nodeIndex. nodeIndex(identity (xs ! i) \<mapsto> i)) [0..<n] Map.empty key = Some k \<Longrightarrow>
   k < n \<and> identity (xs ! k) = key"
proof (induction n arbitrary: k)
  case 0
  then show ?case by simp
next
  case (Suc n)
  show ?case
  proof (cases "key = identity (xs ! n)")
    case True
    with Suc.prems show ?thesis unfolding nodeIndex_fold_Suc by simp
  next
    case False
    with Suc.prems have "fold (\<lambda>i nodeIndex. nodeIndex(identity (xs ! i) \<mapsto> i)) [0..<n] Map.empty key = Some k"
      unfolding nodeIndex_fold_Suc by simp
    from Suc.IH[OF this] show ?thesis by simp
  qed
qed

lemma nodeIndex_fold_dom:
  "n \<le> length xs \<Longrightarrow>
   dom (fold (\<lambda>i nodeIndex. nodeIndex(identity (xs ! i) \<mapsto> i)) [0..<n] Map.empty)
     = identity ` set (take n xs)"
proof (induction n)
  case 0
  then show ?case by simp
next
  case (Suc n)
  define m where "m = fold (\<lambda>i nodeIndex. nodeIndex(identity (xs ! i) \<mapsto> i)) [0..<n] Map.empty"
  have "n \<le> length xs" using Suc.prems by simp
  then have IH: "dom m = identity ` set (take n xs)"
    unfolding m_def by (rule Suc.IH)
  have "dom (m(identity (xs ! n) \<mapsto> n)) = insert (identity (xs ! n)) (dom m)"
    by simp
  also have "\<dots> = identity ` set (take (Suc n) xs)"
    using Suc.prems IH by (simp add: take_Suc_conv_app_nth)
  finally show ?case unfolding nodeIndex_fold_Suc m_def .
qed

lemma nodeIndex_of_Some:
  "nodeIndex_of identity xs key = Some k \<Longrightarrow> k < length xs \<and> identity (xs ! k) = key"
  unfolding nodeIndex_of_def by (rule nodeIndex_fold_Some)

lemma nodeIndex_of_None:
  "nodeIndex_of identity xs key = None \<longleftrightarrow> key \<notin> identity ` set xs"
proof -
  have "dom (nodeIndex_of identity xs) = identity ` set xs"
    unfolding nodeIndex_of_def using nodeIndex_fold_dom[of "length xs" xs identity] by simp
  then show ?thesis by (metis domIff)
qed

lemma deps_visit_map:
  "deps_visit identity xs is (visited, acc) =
     (visited \<union> identity ` (\<lambda>i. xs ! i) ` set is, acc @ map (\<lambda>i. xs ! i) is)"
  unfolding deps_visit_def
  by (induction "is" arbitrary: visited acc) auto

lemma map_nth_rev_upt: "k \<le> length xs \<Longrightarrow> map (\<lambda>i. xs ! i) (rev [0..<k]) = rev (take k xs)"
  by (simp add: list_eq_iff_nth_eq rev_nth)

lemma map_nth_from: "map (\<lambda>i. xs ! i) [k..<length xs] = drop k xs"
  by (simp add: list_eq_iff_nth_eq)

lemma dagDependencies_None:
  "nodeIndex_of identity (supplier g identity compare) (identity t) = None \<Longrightarrow>
   dagDependencies g identity compare supplier t =
     \<lparr>dependencies = filter (\<lambda>n. compare n t < 0) (nodes g),
      dependents = filter (\<lambda>n. 0 < compare n t) (nodes g)\<rparr>"
  by (simp add: dagDependencies_def deps_remaining_filter)

lemma dagDependencies_Some:
  assumes "nodeIndex_of identity (supplier g identity compare) (identity t) = Some k"
  shows "dagDependencies g identity compare supplier t =
     \<lparr>dependencies = rev (take k (supplier g identity compare)) @
         filter (\<lambda>n. identity n \<notin> identity ` (set (take k (supplier g identity compare)) \<union>
                         set (drop (Suc k) (supplier g identity compare))) \<and> compare n t < 0) (nodes g),
      dependents = drop (Suc k) (supplier g identity compare) @
         filter (\<lambda>n. identity n \<notin> identity ` (set (take k (supplier g identity compare)) \<union>
                         set (drop (Suc k) (supplier g identity compare))) \<and> 0 < compare n t) (nodes g)\<rparr>"
proof -
  let ?xs = "supplier g identity compare"
  from nodeIndex_of_Some[OF assms] have k: "k < length ?xs" by simp
  have a: "map (\<lambda>i. ?xs ! i) (rev [0..<k]) = rev (take k ?xs)"
    using k by (simp add: map_nth_rev_upt)
  have b: "map (\<lambda>i. ?xs ! i) [Suc k..<length ?xs] = drop (Suc k) ?xs"
    by (rule map_nth_from)
  have c: "(\<lambda>i. ?xs ! i) ` set (rev [0..<k]) = set (take k ?xs)"
    using arg_cong[OF a, of set] by (simp only: set_map set_rev)
  have d: "(\<lambda>i. ?xs ! i) ` set [Suc k..<length ?xs] = set (drop (Suc k) ?xs)"
    using arg_cong[OF b, of set] by (simp only: set_map)
  have v1: "deps_visit identity ?xs (rev [0..<k]) ({}, []) =
      (identity ` set (take k ?xs), rev (take k ?xs))"
    unfolding deps_visit_map a c by simp
  have v2: "deps_visit identity ?xs [k + 1..<length ?xs] (identity ` set (take k ?xs), []) =
      (identity ` (set (take k ?xs) \<union> set (drop (Suc k) ?xs)), drop (Suc k) ?xs)"
    unfolding deps_visit_map Suc_eq_plus1[symmetric] b d by (simp add: image_Un)
  show ?thesis
    unfolding dagDependencies_def Let_def assms option.case v1 prod.case v2
      deps_remaining_filter ..
qed

lemma distinct_nth_take_drop:
  assumes "distinct xs" "k < length xs"
  shows "xs ! k \<notin> set (take k xs)" "xs ! k \<notin> set (drop (Suc k) xs)"
        "set (take k xs) \<inter> set (drop (Suc k) xs) = {}"
proof -
  have "distinct (take k xs @ xs ! k # drop (Suc k) xs)"
    using assms id_take_nth_drop[of k xs] by simp
  then show "xs ! k \<notin> set (take k xs)" "xs ! k \<notin> set (drop (Suc k) xs)"
        "set (take k xs) \<inter> set (drop (Suc k) xs) = {}"
    by auto
qed

lemma set_take_nth_drop:
  "k < length xs \<Longrightarrow> set xs = set (take k xs) \<union> {xs ! k} \<union> set (drop (Suc k) xs)"
  using id_take_nth_drop[of k xs]
  by (metis Un_insert_right append_Nil2 list.simps(15) set_append sup_bot.right_neutral Un_assoc insert_is_Un)

text \<open>
  C3: for the facade's \<open>deps\<close>, where the supplier is the depth-first topological sort.
  Injectivity of the identity function on the listed nodes and the edge targets is all that
  is needed, and the statement then holds for every listed node, the target included: a
  node is in exactly one of the two lists, or in neither and the comparator finds it equal
  to the target.
\<close>

theorem deps_partition_complete:
  assumes "inj_on identity (set (nodes g) \<union> edge_to ` set (edges g))"
      and "n \<in> set (nodes g)"
      and "r = dagDependencies g identity compare dagTopologicalSortDFS targetNode"
  shows "(n \<in> set (dependencies r) \<and> n \<notin> set (dependents r)) \<or>
         (n \<notin> set (dependencies r) \<and> n \<in> set (dependents r)) \<or>
         (compare n targetNode = 0 \<and> n \<notin> set (dependencies r) \<and> n \<notin> set (dependents r))"
proof (cases "nodeIndex_of identity (dagTopologicalSortDFS g identity compare) (identity targetNode)")
  case None
  from dagDependencies_None[of identity dagTopologicalSortDFS g compare targetNode, OF None] assms(2,3) show ?thesis
    by (cases "compare n targetNode < 0"; cases "0 < compare n targetNode") auto
next
  case (Some k)
  let ?xs = "dagTopologicalSortDFS g identity compare"
  let ?V = "identity ` (set (take k ?xs) \<union> set (drop (Suc k) ?xs))"
  from dagTopologicalSortDFS_content[of identity g compare]
  have d: "distinct (map identity ?xs)"
    and i: "identity ` set (nodes g) \<subseteq> identity ` set ?xs"
    and s: "set ?xs \<subseteq> set (nodes g) \<union> edge_to ` set (edges g)"
    by auto
  from nodeIndex_of_Some[OF Some] have k: "k < length ?xs" by simp
  have dx: "distinct ?xs" using d by (simp add: distinct_map)
  have injx: "inj_on identity (set ?xs)" using d by (simp add: distinct_map)
  have nx: "n \<in> set ?xs"
  proof -
    from i assms(2) obtain y where y: "y \<in> set ?xs" "identity y = identity n" by auto
    with s assms(1,2) have "y = n" by (auto dest!: inj_onD)
    with y show ?thesis by simp
  qed
  have r: "dependencies r = rev (take k ?xs) @
             filter (\<lambda>n. identity n \<notin> ?V \<and> compare n targetNode < 0) (nodes g)"
          "dependents r = drop (Suc k) ?xs @
             filter (\<lambda>n. identity n \<notin> ?V \<and> 0 < compare n targetNode) (nodes g)"
    using dagDependencies_Some[of identity dagTopologicalSortDFS g compare targetNode k, OF Some] assms(3) by simp_all
  have sub: "set (take k ?xs) \<subseteq> set ?xs" "set (drop (Suc k) ?xs) \<subseteq> set ?xs"
    by (auto dest: in_set_takeD in_set_dropD)
  from nx set_take_nth_drop[OF k]
  consider (before) "n \<in> set (take k ?xs)" | (at) "n = ?xs ! k" | (after) "n \<in> set (drop (Suc k) ?xs)"
    by auto
  then show ?thesis
  proof cases
    case before
    then have "n \<notin> set (drop (Suc k) ?xs)" using distinct_nth_take_drop(3)[OF dx k] by auto
    moreover have "identity n \<in> ?V" using before by auto
    ultimately show ?thesis using before r by auto
  next
    case after
    then have "n \<notin> set (take k ?xs)" using distinct_nth_take_drop(3)[OF dx k] by auto
    moreover have "identity n \<in> ?V" using after by auto
    ultimately show ?thesis using after r by auto
  next
    case at
    have n1: "n \<notin> set (take k ?xs)" "n \<notin> set (drop (Suc k) ?xs)"
      using distinct_nth_take_drop(1,2)[OF dx k] at by auto
    have "identity n \<notin> ?V"
    proof
      assume "identity n \<in> ?V"
      then obtain y where y: "y \<in> set (take k ?xs) \<union> set (drop (Suc k) ?xs)"
        "identity y = identity n" by (metis imageE)
      with sub have "y \<in> set ?xs" by auto
      with injx nx y(2) have "y = n" by (auto dest: inj_onD)
      with y n1 show False by auto
    qed
    with n1 r assms(2) show ?thesis
      by (cases "compare n targetNode < 0"; cases "0 < compare n targetNode") auto
  qed
qed

theorem deps_partition_complete_witness:
  "1 \<in> set (dependencies (dagDependencies
       \<lparr>nodes = [0::nat, 1, 2], edges = [\<lparr>edge_from = 0, edge_to = 1\<rparr>, \<lparr>edge_from = 1, edge_to = 2\<rparr>]\<rparr>
       (\<lambda>n. n) (\<lambda>a b. int a - int b) dagTopologicalSortDFS 2))
   \<and> 1 \<notin> set (dependents (dagDependencies
       \<lparr>nodes = [0::nat, 1, 2], edges = [\<lparr>edge_from = 0, edge_to = 1\<rparr>, \<lparr>edge_from = 1, edge_to = 2\<rparr>]\<rparr>
       (\<lambda>n. n) (\<lambda>a b. int a - int b) dagTopologicalSortDFS 2))"
proof -
  let ?g = "\<lparr>nodes = [0::nat, 1, 2], edges = [\<lparr>edge_from = 0, edge_to = 1\<rparr>, \<lparr>edge_from = 1, edge_to = 2\<rparr>]\<rparr>"
  let ?r = "dagDependencies ?g (\<lambda>n. n) (\<lambda>a b. int a - int b) dagTopologicalSortDFS 2"
  have inj: "inj_on (\<lambda>n::nat. n) (set (nodes ?g) \<union> edge_to ` set (edges ?g))" by simp
  have mem: "(1::nat) \<in> set (nodes ?g)" by simp
  have nd: "1 \<notin> set (dependents ?r)"
    by (simp add: dagDependencies_def nodeIndex_of_def dagTopologicalSortDFS_def
        topologicalSort_dagDFS_def deps_visit_def upt_rec)
  from deps_partition_complete[OF inj mem refl, of "\<lambda>a b. int a - int b" 2] nd
  show ?thesis by simp
qed

subsection \<open>Dependencies: target absent from the index\<close>

lemma deps_unknown_target_absent:
  assumes "identity targetNode \<notin> identity ` (set (nodes g) \<union> edge_to ` set (edges g))"
  shows "nodeIndex_of identity (dagTopologicalSortDFS g identity compare) (identity targetNode) = None"
proof -
  from dagTopologicalSortDFS_content[of identity g compare]
  have "set (dagTopologicalSortDFS g identity compare) \<subseteq> set (nodes g) \<union> edge_to ` set (edges g)"
    by blast
  with assms have "identity targetNode \<notin> identity ` set (dagTopologicalSortDFS g identity compare)"
    by blast
  then show ?thesis by (simp add: nodeIndex_of_None)
qed

text \<open>
  C7 as stated fails in its instance: a target that is not in the node list need not be
  absent from the index. Below, the target \<open>1\<close> is not listed, but it is the target of a
  dangling edge; the sort places it after \<open>0\<close>, and \<open>0\<close> becomes a dependency by position
  although the comparator is positive on \<open>0\<close> and the target, which would make it a
  dependent.
\<close>

theorem deps_unlisted_target_indexed:
  "(1::nat) \<notin> set (nodes \<lparr>nodes = [0::nat], edges = [\<lparr>edge_from = 0, edge_to = 1\<rparr>]\<rparr>)
   \<and> 0 < (\<lambda>a b. int b - int a) (0::nat) (1::nat)
   \<and> nodeIndex_of (\<lambda>n. n)
        (dagTopologicalSortDFS \<lparr>nodes = [0::nat], edges = [\<lparr>edge_from = 0, edge_to = 1\<rparr>]\<rparr>
           (\<lambda>n. n) (\<lambda>a b. int b - int a)) 1 = Some 1
   \<and> dagDependencies \<lparr>nodes = [0::nat], edges = [\<lparr>edge_from = 0, edge_to = 1\<rparr>]\<rparr>
        (\<lambda>n. n) (\<lambda>a b. int b - int a) dagTopologicalSortDFS 1
      = \<lparr>dependencies = [0], dependents = []\<rparr>"
  by (simp add: dagDependencies_def nodeIndex_of_def dagTopologicalSortDFS_def
      topologicalSort_dagDFS_def deps_visit_def upt_rec)

text \<open>
  C7, amended: when the identity of the target is not a key of the index built over the
  topological sort, whatever the supplier of the sort, nothing is marked visited and every
  node of the graph is classified by the sign of the comparator alone: negative into the
  dependencies, positive into the dependents, zero into neither. For the depth-first sort
  this is the case in particular when the identity of the target is the identity of no
  listed node and of no edge target. The model has no failing branch: \<open>dagDependencies\<close> is
  a total function returning the two lists.
\<close>

theorem deps_target_absent_from_index:
  "(nodeIndex_of identity (topologicalSortSupplier g identity compare) (identity targetNode) = None
      \<longrightarrow> dagDependencies g identity compare topologicalSortSupplier targetNode =
            \<lparr>dependencies = filter (\<lambda>n. compare n targetNode < 0) (nodes g),
             dependents = filter (\<lambda>n. 0 < compare n targetNode) (nodes g)\<rparr>)
   \<and> (identity targetNode \<notin> identity ` (set (nodes g) \<union> edge_to ` set (edges g))
      \<longrightarrow> nodeIndex_of identity (dagTopologicalSortDFS g identity compare) (identity targetNode)
            = None
          \<and> dagDependencies g identity compare dagTopologicalSortDFS targetNode =
            \<lparr>dependencies = filter (\<lambda>n. compare n targetNode < 0) (nodes g),
             dependents = filter (\<lambda>n. 0 < compare n targetNode) (nodes g)\<rparr>)"
proof (intro conjI impI)
  assume "nodeIndex_of identity (topologicalSortSupplier g identity compare)
            (identity targetNode) = None"
  then show "dagDependencies g identity compare topologicalSortSupplier targetNode =
            \<lparr>dependencies = filter (\<lambda>n. compare n targetNode < 0) (nodes g),
             dependents = filter (\<lambda>n. 0 < compare n targetNode) (nodes g)\<rparr>"
    by (simp add: dagDependencies_def deps_remaining_filter)
next
  assume a: "identity targetNode \<notin> identity ` (set (nodes g) \<union> edge_to ` set (edges g))"
  show none: "nodeIndex_of identity (dagTopologicalSortDFS g identity compare)
      (identity targetNode) = None"
    by (rule deps_unknown_target_absent[OF a])
  then show "dagDependencies g identity compare dagTopologicalSortDFS targetNode =
            \<lparr>dependencies = filter (\<lambda>n. compare n targetNode < 0) (nodes g),
             dependents = filter (\<lambda>n. 0 < compare n targetNode) (nodes g)\<rparr>"
    by (simp add: dagDependencies_def deps_remaining_filter)
qed

theorem deps_target_absent_from_index_witness:
  "dagDependencies \<lparr>nodes = [1::nat, 2, 4], edges = [\<lparr>edge_from = 1, edge_to = 2\<rparr>]\<rparr>
      (\<lambda>n. n) (\<lambda>a b. int a - int b) dagTopologicalSortDFS 3 =
   \<lparr>dependencies = [1, 2], dependents = [4]\<rparr>"
proof -
  let ?g = "\<lparr>nodes = [1::nat, 2, 4], edges = [\<lparr>edge_from = 1, edge_to = 2\<rparr>]\<rparr>"
  have "(3::nat) \<notin> (\<lambda>n. n) ` (set (nodes ?g) \<union> edge_to ` set (edges ?g))"
    by simp
  with deps_target_absent_from_index[of "\<lambda>n. n" dagTopologicalSortDFS ?g
      "\<lambda>a b. int a - int b" 3]
  show ?thesis by simp
qed

subsection \<open>Consistent identity and comparator\<close>

lemma consistent_on_compare:
  "consistent_on N identity compare \<Longrightarrow> a \<in> N \<Longrightarrow> b \<in> N \<Longrightarrow> (compare a b = 0) = (a = b)"
  unfolding consistent_on_def by (auto dest: inj_onD)

lemma consistent_on_identity:
  "consistent_on N identity compare \<Longrightarrow> a \<in> N \<Longrightarrow> b \<in> N \<Longrightarrow> (identity a = identity b) = (a = b)"
  unfolding consistent_on_def by (auto dest: inj_onD)

lemma consistent_on_image:
  "consistent_on N identity compare \<Longrightarrow> a \<in> N \<Longrightarrow> A \<subseteq> N \<Longrightarrow> (identity a \<in> identity ` A) = (a \<in> A)"
  unfolding consistent_on_def by (auto dest: inj_onD)

lemma edge_in_graph_nodes:
  "e \<in> set (edges g) \<Longrightarrow> edge_from e \<in> graph_nodes g \<and> edge_to e \<in> graph_nodes g"
  by (auto simp: graph_nodes_def)

lemma edge_in_edge_rel: "e \<in> set (edges g) \<Longrightarrow> (edge_from e, edge_to e) \<in> edge_rel g"
  by (auto simp: edge_rel_def)

lemma edge_rel_iff: "(a, b) \<in> edge_rel g \<longleftrightarrow> (\<exists>e \<in> set (edges g). edge_from e = a \<and> edge_to e = b)"
  by (auto simp: edge_rel_def)

subsection \<open>Topological sort: order\<close>

lemma postorder_ok_snoc:
  assumes "postorder_ok g stack"
      and "\<forall>e \<in> set (edges g). edge_from e = node \<longrightarrow> edge_to e \<in> set stack"
  shows "postorder_ok g (stack @ [node])"
  unfolding postorder_ok_def
proof (intro allI impI ballI)
  fix i e
  assume i: "i < length (stack @ [node])" and e: "e \<in> set (edges g)"
    and f: "edge_from e = (stack @ [node]) ! i"
  show "\<exists>j<i. (stack @ [node]) ! j = edge_to e"
  proof (cases "i < length stack")
    case True
    with f have "edge_from e = stack ! i" by (simp add: nth_append)
    with assms(1) True e obtain j where "j < i" "stack ! j = edge_to e"
      unfolding postorder_ok_def by blast
    with True show ?thesis by (auto simp: nth_append intro!: exI[of _ j])
  next
    case False
    with i have il: "i = length stack" by simp
    with f have "edge_from e = node" by simp
    with assms(2) e have "edge_to e \<in> set stack" by blast
    then obtain j where "j < length stack" "stack ! j = edge_to e"
      by (auto simp: in_set_conv_nth)
    with il show ?thesis by (auto simp: nth_append intro!: exI[of _ j])
  qed
qed

lemma topologicalSort_edges_postorder:
  "topologicalSort_edges g identity compare node es visited stack = (visited', stack') \<Longrightarrow>
   consistent_on (graph_nodes g) identity compare \<Longrightarrow>
   \<not> graph_has_cycle g \<Longrightarrow>
   edges g = seen @ es \<Longrightarrow>
   topo_inv g identity node seen visited stack \<Longrightarrow>
   postorder_ok g stack'"
proof (induction g identity compare node es visited stack arbitrary: visited' stack' seen
    rule: topologicalSort_edges.induct)
  case (1 g identity compare node visited stack)
  from 1(1) have st: "stack' = stack @ [node]" by simp
  have sc: "\<forall>e \<in> set (edges g). edge_from e = node \<longrightarrow> edge_to e \<in> set stack"
    using 1(4,5) by (simp add: topo_inv_def)
  have "postorder_ok g stack" using 1(5) by (simp add: topo_inv_def)
  then show ?case unfolding st using sc by (rule postorder_ok_snoc)
next
  case (2 g identity compare node edge rest visited stack)
  let ?x = "edge_to edge"
  let ?N = "graph_nodes g"
  note cons = \<open>consistent_on ?N identity compare\<close>
  note acyc = \<open>\<not> graph_has_cycle g\<close>
  note inv = \<open>topo_inv g identity node seen visited stack\<close>
  have nodeN: "node \<in> ?N" and a0: "identity node \<in> visited"
    and b0: "identity ` set stack \<subseteq> visited" and n0: "set stack \<subseteq> ?N"
    and p0: "postorder_ok g stack"
    and d0: "\<forall>x \<in> ?N. identity x \<in> visited \<longrightarrow> x \<notin> set stack \<longrightarrow> (node, x) \<notin> (edge_rel g)\<^sup>+"
    and s0: "\<forall>e \<in> set seen. edge_from e = node \<longrightarrow> edge_to e \<in> set stack"
    using inv unfolding topo_inv_def by blast+
  have eg: "edges g = (seen @ [edge]) @ rest" using 2(8) by simp
  have edge_in: "edge \<in> set (edges g)" using 2(8) by simp
  then have xN: "?x \<in> ?N" and fN: "edge_from edge \<in> ?N"
    using edge_in_graph_nodes by blast+
  have match_iff: "(compare (edge_from edge) node = 0) = (edge_from edge = node)"
    using consistent_on_compare[OF cons fN nodeN] .
  show ?case
  proof (cases "compare (edge_from edge) node = 0")
    case False
    then have eq: "topologicalSort_edges g identity compare node rest visited stack = (visited', stack')"
      using 2(5) by simp
    have "\<forall>e \<in> set (seen @ [edge]). edge_from e = node \<longrightarrow> edge_to e \<in> set stack"
      using s0 False match_iff by auto
    then have inv': "topo_inv g identity node (seen @ [edge]) visited stack"
      using inv unfolding topo_inv_def by blast
    show ?thesis
      by (rule 2(4)[OF False eq cons acyc eg inv'])
  next
    case match: True
    then have from_node: "edge_from edge = node" using match_iff by simp
    then have step: "(node, ?x) \<in> edge_rel g" using edge_in_edge_rel[OF edge_in] by simp
    show ?thesis
    proof (cases "identity ?x \<in> visited")
      case vis: True
      then have eq: "topologicalSort_edges g identity compare node rest visited stack = (visited', stack')"
        using 2(5) match by simp
      have "?x \<in> set stack"
      proof (rule ccontr)
        assume "?x \<notin> set stack"
        with d0 xN vis have "(node, ?x) \<notin> (edge_rel g)\<^sup>+" by blast
        with step show False by auto
      qed
      then have "\<forall>e \<in> set (seen @ [edge]). edge_from e = node \<longrightarrow> edge_to e \<in> set stack"
        using s0 by auto
      then have inv': "topo_inv g identity node (seen @ [edge]) visited stack"
        using inv unfolding topo_inv_def by blast
      have nv: "\<not> identity ?x \<notin> visited" using vis by simp
      show ?thesis
        by (rule 2(3)[OF match refl nv eq cons acyc eg inv'])
    next
      case unv: False
      obtain v1 s1 where res: "topologicalSort_edges g identity compare ?x (edges g)
          (insert (identity ?x) visited) stack = (v1, s1)"
        by fastforce
      have eq: "topologicalSort_edges g identity compare node rest v1 s1 = (visited', stack')"
        using 2(5) match unv res by simp
      from topologicalSort_edges_content[OF res] obtain new1 where
        c1: "insert (identity ?x) visited \<subseteq> v1" "s1 = stack @ new1 @ [?x]"
          "identity ` set new1 = v1 - insert (identity ?x) visited"
          "set new1 \<subseteq> edge_to ` set (edges g)"
        by auto
      have new1N: "set new1 \<subseteq> ?N" using c1(4) by (auto simp: graph_nodes_def)
      \<comment> \<open>the nested call\<close>
      have d1: "\<forall>x \<in> ?N. identity x \<in> insert (identity ?x) visited \<longrightarrow> x \<notin> set stack \<longrightarrow>
                  (?x, x) \<notin> (edge_rel g)\<^sup>+"
      proof (intro ballI impI)
        fix x assume x: "x \<in> ?N" "identity x \<in> insert (identity ?x) visited" "x \<notin> set stack"
        show "(?x, x) \<notin> (edge_rel g)\<^sup>+"
        proof
          assume r: "(?x, x) \<in> (edge_rel g)\<^sup>+"
          show False
          proof (cases "identity x = identity ?x")
            case True
            then have "x = ?x" using consistent_on_identity[OF cons x(1) xN] by simp
            with r acyc show False by (auto simp: graph_has_cycle_def)
          next
            case False
            with x have "identity x \<in> visited" by simp
            with d0 x have "(node, x) \<notin> (edge_rel g)\<^sup>+" by blast
            moreover from step r have "(node, x) \<in> (edge_rel g)\<^sup>+" by (rule trancl_into_trancl2)
            ultimately show False by simp
          qed
        qed
      qed
      have inv1: "topo_inv g identity ?x [] (insert (identity ?x) visited) stack"
        unfolding topo_inv_def using xN b0 n0 p0 d1 by auto
      have p1: "postorder_ok g s1"
        by (rule 2(1)[OF match refl unv res cons acyc _ inv1]) simp
      \<comment> \<open>the rest of the scan\<close>
      have a2: "identity node \<in> v1" using a0 c1(1) by auto
      have b2: "identity ` set s1 \<subseteq> v1" using c1 b0 by auto
      have n2: "set s1 \<subseteq> ?N" using c1(2) new1N xN n0 by auto
      have d2: "\<forall>x \<in> ?N. identity x \<in> v1 \<longrightarrow> x \<notin> set s1 \<longrightarrow> (node, x) \<notin> (edge_rel g)\<^sup>+"
      proof (intro ballI impI)
        fix x assume x: "x \<in> ?N" "identity x \<in> v1" "x \<notin> set s1"
        have "identity x \<in> visited"
        proof (rule ccontr)
          assume nv: "identity x \<notin> visited"
          with x(2) c1(3) have "identity x \<in> identity ` set (new1 @ [?x])" by auto
          moreover have "set (new1 @ [?x]) \<subseteq> ?N" using new1N xN by auto
          ultimately have "x \<in> set (new1 @ [?x])"
            using consistent_on_image[OF cons x(1)] by blast
          with x(3) c1(2) show False by auto
        qed
        moreover have "x \<notin> set stack" using x(3) c1(2) by auto
        ultimately show "(node, x) \<notin> (edge_rel g)\<^sup>+" using d0 x(1) by blast
      qed
      have s2: "\<forall>e \<in> set (seen @ [edge]). edge_from e = node \<longrightarrow> edge_to e \<in> set s1"
        using s0 c1(2) by auto
      have inv2: "topo_inv g identity node (seen @ [edge]) v1 s1"
        unfolding topo_inv_def using nodeN a2 b2 n2 p1 d2 s2 by blast
      show ?thesis
        by (rule 2(2)[OF match refl unv res[symmetric] eq cons acyc eg inv2])
    qed
  qed
qed

lemma topologicalSort_roots_postorder:
  "topologicalSort_roots g identity compare ns visited stack = (visited', stack') \<Longrightarrow>
   consistent_on (graph_nodes g) identity compare \<Longrightarrow>
   \<not> graph_has_cycle g \<Longrightarrow>
   set ns \<subseteq> graph_nodes g \<Longrightarrow>
   identity ` set stack = visited \<and> set stack \<subseteq> graph_nodes g \<and> postorder_ok g stack \<Longrightarrow>
   identity ` set stack' = visited' \<and> set stack' \<subseteq> graph_nodes g \<and> postorder_ok g stack' \<and>
   identity ` set ns \<subseteq> visited'"
proof (induction ns arbitrary: visited stack)
  case Nil
  then show ?case by simp
next
  case (Cons node rest)
  let ?N = "graph_nodes g"
  note cons = Cons.prems(2) and acyc = Cons.prems(3)
  have nodeN: "node \<in> ?N" and restN: "set rest \<subseteq> ?N" using Cons.prems(4) by auto
  have b0: "identity ` set stack = visited" and n0: "set stack \<subseteq> ?N"
    and p0: "postorder_ok g stack"
    using Cons.prems(5) by blast+
  show ?case
  proof (cases "identity node \<in> visited")
    case True
    with Cons.prems(1)
    have eq: "topologicalSort_roots g identity compare rest visited stack = (visited', stack')"
      by simp
    from topologicalSort_roots_content[OF eq] have "visited \<subseteq> visited'" by blast
    with Cons.IH[OF eq cons acyc restN Cons.prems(5)] True show ?thesis by auto
  next
    case False
    obtain v1 s1 where res: "topologicalSort_dagDFS g identity compare node visited stack = (v1, s1)"
      by fastforce
    with Cons.prems(1) False
    have eq: "topologicalSort_roots g identity compare rest v1 s1 = (visited', stack')"
      by simp
    from topologicalSort_dagDFS_content[OF res False] obtain new1 where
      c1: "visited \<subseteq> v1" "identity node \<in> v1" "s1 = stack @ new1"
          "identity ` set new1 = v1 - visited"
          "set new1 \<subseteq> insert node (edge_to ` set (edges g))"
      by auto
    have new1N: "set new1 \<subseteq> ?N" using c1(5) nodeN by (auto simp: graph_nodes_def)
    have b1: "identity ` set s1 = v1" using c1 b0 by (auto simp: image_Un)
    have n1: "set s1 \<subseteq> ?N" using c1(3) new1N n0 by auto
    have d: "\<forall>x \<in> ?N. identity x \<in> insert (identity node) visited \<longrightarrow> x \<notin> set stack \<longrightarrow>
               (node, x) \<notin> (edge_rel g)\<^sup>+"
    proof (intro ballI impI)
      fix x assume x: "x \<in> ?N" "identity x \<in> insert (identity node) visited" "x \<notin> set stack"
      from x(3) have "identity x \<notin> visited"
        using consistent_on_image[OF cons x(1) n0] b0 by simp
      with x(2) have "identity x = identity node" by simp
      then have "x = node" using consistent_on_identity[OF cons x(1) nodeN] by simp
      with acyc show "(node, x) \<notin> (edge_rel g)\<^sup>+" by (auto simp: graph_has_cycle_def)
    qed
    have inv: "topo_inv g identity node [] (insert (identity node) visited) stack"
      unfolding topo_inv_def using nodeN b0 n0 p0 d by auto
    have p1: "postorder_ok g s1"
      by (rule topologicalSort_edges_postorder[OF res[unfolded topologicalSort_dagDFS_def]
            cons acyc _ inv]) simp
    from Cons.IH[OF eq cons acyc restN] b1 n1 p1
    have r: "identity ` set stack' = visited'" "set stack' \<subseteq> ?N" "postorder_ok g stack'"
      "identity ` set rest \<subseteq> visited'" by blast+
    from topologicalSort_roots_content[OF eq] have "v1 \<subseteq> visited'" by blast
    with c1(2) r show ?thesis by auto
  qed
qed

lemma acyclic_by_rank:
  fixes rank :: "'n \<Rightarrow> nat"
  assumes "\<forall>e \<in> set (edges g). rank (edge_from e) < rank (edge_to e)"
  shows "\<not> graph_has_cycle g"
proof -
  have "(x, y) \<in> (edge_rel g)\<^sup>+ \<Longrightarrow> rank x < rank y" for x y
  proof (induction rule: trancl_induct)
    case (base y)
    then show ?case using assms by (auto simp: edge_rel_iff)
  next
    case (step y z)
    from step(2) assms have "rank y < rank z" by (auto simp: edge_rel_iff)
    with step(3) show ?case by simp
  qed
  then show ?thesis unfolding graph_has_cycle_def by fastforce
qed

text \<open>
  C2: on an acyclic graph, with every endpoint listed and identity and comparator
  consistent on the nodes, the result of the sort has no repetition, and for every edge
  the source occurs in it strictly before the target: both occur, and the position of the
  source is smaller than the position of the target.
\<close>

theorem topologicalSort_respects_edges:
  assumes "endpoints_in_nodes g"
      and "consistent_on (graph_nodes g) identity compare"
      and "\<not> graph_has_cycle g"
      and "e \<in> set (edges g)"
  shows "distinct (dagTopologicalSortDFS g identity compare) \<and>
         appears_before (dagTopologicalSortDFS g identity compare) (edge_from e) (edge_to e)"
proof -
  let ?N = "graph_nodes g"
  let ?r = "dagTopologicalSortDFS g identity compare"
  obtain v s where res: "topologicalSort_roots g identity compare (nodes g) {} [] = (v, s)"
    by fastforce
  have r: "?r = rev s"
    by (simp add: dagTopologicalSortDFS_def res)
  have dist: "distinct ?r"
    using dagTopologicalSortDFS_content[of identity g compare] by (simp add: distinct_map)
  have "identity ` set [] = {} \<and> set [] \<subseteq> ?N \<and> postorder_ok g []"
    by (simp add: postorder_ok_def)
  from topologicalSort_roots_postorder[OF res assms(2,3) _ this]
  have s: "identity ` set s = v" "set s \<subseteq> ?N" "postorder_ok g s" "identity ` set (nodes g) \<subseteq> v"
    by (auto simp: graph_nodes_def)
  have fN: "edge_from e \<in> ?N" using assms(4) edge_in_graph_nodes by blast
  have "edge_from e \<in> set (nodes g)" using assms(1,4) by (simp add: endpoints_in_nodes_def)
  with s(1,4) have "identity (edge_from e) \<in> identity ` set s" by auto
  then have "edge_from e \<in> set s" using consistent_on_image[OF assms(2) fN s(2)] by simp
  then obtain i where i: "i < length s" "s ! i = edge_from e" by (auto simp: in_set_conv_nth)
  with s(3) assms(4) obtain j where j: "j < i" "s ! j = edge_to e"
    unfolding postorder_ok_def by metis
  let ?i = "length s - Suc i" and ?j = "length s - Suc j"
  have lt: "?i < ?j" and len: "?i < length ?r" "?j < length ?r" using i j r by auto
  have ri: "?r ! ?i = edge_from e" using i r by (simp add: rev_nth)
  have rj: "?r ! ?j = edge_to e" using i j r by (simp add: rev_nth)
  have "edge_from e \<in> set ?r" using len(1) ri by (metis nth_mem)
  moreover have "edge_to e \<in> set ?r" using len(2) rj by (metis nth_mem)
  moreover have "i' < j'"
    if "i' < length ?r" "j' < length ?r" "?r ! i' = edge_from e" "?r ! j' = edge_to e" for i' j'
  proof -
    have "i' = ?i" using nth_eq_iff_index_eq[OF dist that(1) len(1)] that(3) ri by simp
    moreover have "j' = ?j" using nth_eq_iff_index_eq[OF dist that(2) len(2)] that(4) rj by simp
    ultimately show ?thesis using lt by simp
  qed
  ultimately have "appears_before ?r (edge_from e) (edge_to e)"
    unfolding appears_before_def by blast
  with dist show ?thesis by simp
qed

theorem topologicalSort_respects_edges_witness:
  "distinct (dagTopologicalSortDFS
      \<lparr>nodes = [0::nat, 1, 2], edges = [\<lparr>edge_from = 1, edge_to = 0\<rparr>, \<lparr>edge_from = 2, edge_to = 1\<rparr>]\<rparr>
      (\<lambda>n. n) (\<lambda>a b. int a - int b))
   \<and> appears_before (dagTopologicalSortDFS
      \<lparr>nodes = [0::nat, 1, 2], edges = [\<lparr>edge_from = 1, edge_to = 0\<rparr>, \<lparr>edge_from = 2, edge_to = 1\<rparr>]\<rparr>
      (\<lambda>n. n) (\<lambda>a b. int a - int b)) 2 1"
proof -
  let ?g = "\<lparr>nodes = [0::nat, 1, 2], edges = [\<lparr>edge_from = 1, edge_to = 0\<rparr>, \<lparr>edge_from = 2, edge_to = 1\<rparr>]\<rparr>"
  have a: "endpoints_in_nodes ?g" by (simp add: endpoints_in_nodes_def)
  have b: "consistent_on (graph_nodes ?g) (\<lambda>n. n) (\<lambda>a b. int a - int b)"
    by (simp add: consistent_on_def)
  have c: "\<not> graph_has_cycle ?g"
    by (rule acyclic_by_rank[of _ "\<lambda>n. 2 - n"]) simp
  have d: "\<lparr>edge_from = 2, edge_to = 1\<rparr> \<in> set (edges ?g)" by simp
  from topologicalSort_respects_edges[OF a b c d] show ?thesis by simp
qed

subsection \<open>Cycle detection\<close>


lemma finished_reach:
  assumes "finished_ok g identity F" "(a, b) \<in> (edge_rel g)\<^sup>*" "identity a \<in> F"
  shows "identity b \<in> F"
  using assms(2,3)
proof (induction rule: rtrancl_induct)
  case base
  then show ?case by simp
next
  case (step y z)
  from step(2) obtain e where "e \<in> set (edges g)" "edge_from e = y" "edge_to e = z"
    by (auto simp: edge_rel_iff)
  with assms(1) step(3)[OF step(4)] show ?case unfolding finished_ok_def by blast
qed

lemma finished_ok_add:
  assumes cons: "consistent_on (graph_nodes g) identity compare"
      and fin: "finished_ok g identity F"
      and nodeN: "node \<in> graph_nodes g"
      and notF: "identity node \<notin> F"
      and out: "\<forall>e \<in> set (edges g). edge_from e = node \<longrightarrow> identity (edge_to e) \<in> F"
  shows "finished_ok g identity (insert (identity node) F)"
  unfolding finished_ok_def
proof (intro conjI ballI impI)
  fix e assume e: "e \<in> set (edges g)" "identity (edge_from e) \<in> insert (identity node) F"
  show "identity (edge_to e) \<in> insert (identity node) F"
  proof (cases "identity (edge_from e) \<in> F")
    case True
    with fin e(1) show ?thesis unfolding finished_ok_def by blast
  next
    case False
    with e(2) have "identity (edge_from e) = identity node" by simp
    moreover have "edge_from e \<in> graph_nodes g" using e(1) edge_in_graph_nodes by blast
    ultimately have "edge_from e = node" using consistent_on_identity[OF cons _ nodeN] by blast
    with out e(1) show ?thesis by blast
  qed
next
  fix x assume x: "x \<in> graph_nodes g" "identity x \<in> insert (identity node) F"
  show "(x, x) \<notin> (edge_rel g)\<^sup>+"
  proof (cases "identity x \<in> F")
    case True
    with fin x(1) show ?thesis unfolding finished_ok_def by blast
  next
    case False
    with x(2) have "identity x = identity node" by simp
    then have xn: "x = node" using consistent_on_identity[OF cons x(1) nodeN] by simp
    show ?thesis
    proof
      assume "(x, x) \<in> (edge_rel g)\<^sup>+"
      then obtain z where z: "(node, z) \<in> edge_rel g" "(z, node) \<in> (edge_rel g)\<^sup>*"
        using xn by (auto dest: tranclD)
      from z(1) obtain e where "e \<in> set (edges g)" "edge_from e = node" "edge_to e = z"
        by (auto simp: edge_rel_iff)
      with out have "identity z \<in> F" by blast
      from finished_reach[OF fin z(2) this] notF show False by simp
    qed
  qed
qed

lemma isCyclical_edges_sound:
  "isCyclical_edges g identity compare node es visited recursionStack =
     (found, visited', recursionStack') \<Longrightarrow>
   consistent_on (graph_nodes g) identity compare \<Longrightarrow>
   edges g = seen @ es \<Longrightarrow>
   isCyclical_inv g identity node seen visited recursionStack \<Longrightarrow>
   (found \<longrightarrow> graph_has_cycle g) \<and>
   (\<not> found \<longrightarrow> visited \<subseteq> visited' \<and> recursionStack' = recursionStack - {identity node} \<and>
                finished_ok g identity (visited' - recursionStack'))"
proof (induction g identity compare node es visited recursionStack
    arbitrary: found visited' recursionStack' seen rule: isCyclical_edges.induct)
  case (1 g identity compare node visited recursionStack)
  note cons = 1(2) and inv = 1(4)
  have nodeN: "node \<in> graph_nodes g" and onstack: "identity node \<in> recursionStack"
    and sub: "recursionStack \<subseteq> visited"
    and fin: "finished_ok g identity (visited - recursionStack)"
    and out: "\<forall>e \<in> set seen. edge_from e = node \<longrightarrow> identity (edge_to e) \<in> visited - recursionStack"
    using inv unfolding isCyclical_inv_def by blast+
  from 1(1) have r: "found = False" "visited' = visited"
    "recursionStack' = recursionStack - {identity node}" by simp_all
  have seen: "seen = edges g" using 1(3) by simp
  have "finished_ok g identity (insert (identity node) (visited - recursionStack))"
    by (rule finished_ok_add[OF cons fin nodeN]) (use onstack out seen in auto)
  moreover have "visited - (recursionStack - {identity node})
      = insert (identity node) (visited - recursionStack)"
    using onstack sub by auto
  ultimately show ?case using r by simp
next
  case (2 g identity compare node edge rest visited recursionStack)
  let ?x = "edge_to edge"
  let ?N = "graph_nodes g"
  note cons = 2(6) and inv = 2(8)
  have nodeN: "node \<in> ?N" and onstack: "identity node \<in> recursionStack"
    and sub: "recursionStack \<subseteq> visited"
    and fin: "finished_ok g identity (visited - recursionStack)"
    and reach: "\<forall>x \<in> ?N. identity x \<in> recursionStack \<longrightarrow> (x, node) \<in> (edge_rel g)\<^sup>*"
    and out: "\<forall>e \<in> set seen. edge_from e = node \<longrightarrow> identity (edge_to e) \<in> visited - recursionStack"
    using inv unfolding isCyclical_inv_def by blast+
  have eg: "edges g = (seen @ [edge]) @ rest" using 2(7) by simp
  have edge_in: "edge \<in> set (edges g)" using 2(7) by simp
  then have xN: "?x \<in> ?N" and fN: "edge_from edge \<in> ?N"
    using edge_in_graph_nodes by blast+
  have match_iff: "(compare (edge_from edge) node = 0) = (edge_from edge = node)"
    using consistent_on_compare[OF cons fN nodeN] .
  show ?case
  proof (cases "compare (edge_from edge) node = 0")
    case False
    then have eq: "isCyclical_edges g identity compare node rest visited recursionStack
        = (found, visited', recursionStack')"
      using 2(5) by simp
    have "\<forall>e \<in> set (seen @ [edge]). edge_from e = node \<longrightarrow>
            identity (edge_to e) \<in> visited - recursionStack"
      using out False match_iff by auto
    then have inv': "isCyclical_inv g identity node (seen @ [edge]) visited recursionStack"
      using inv unfolding isCyclical_inv_def by blast
    show ?thesis by (rule 2(4)[OF False eq cons eg inv'])
  next
    case match: True
    then have from_node: "edge_from edge = node" using match_iff by simp
    then have step: "(node, ?x) \<in> edge_rel g" using edge_in_edge_rel[OF edge_in] by simp
    show ?thesis
    proof (cases "identity ?x \<in> visited")
      case vis: True
      show ?thesis
      proof (cases "identity ?x \<in> recursionStack")
        case True
        then have "found" using 2(5) match vis by simp
        moreover have "(?x, node) \<in> (edge_rel g)\<^sup>*" using reach xN True by blast
        with step have "(node, node) \<in> (edge_rel g)\<^sup>+" by (rule rtrancl_into_trancl2)
        then have "graph_has_cycle g" unfolding graph_has_cycle_def by blast
        ultimately show ?thesis by simp
      next
        case False
        then have eq: "isCyclical_edges g identity compare node rest visited recursionStack
            = (found, visited', recursionStack')"
          using 2(5) match vis by simp
        have "\<forall>e \<in> set (seen @ [edge]). edge_from e = node \<longrightarrow>
                identity (edge_to e) \<in> visited - recursionStack"
          using out vis False by auto
        then have inv': "isCyclical_inv g identity node (seen @ [edge]) visited recursionStack"
          using inv unfolding isCyclical_inv_def by blast
        have nv: "\<not> identity ?x \<notin> visited" using vis by simp
        show ?thesis by (rule 2(3)[OF match refl nv False eq cons eg inv'])
      qed
    next
      case unv: False
      let ?V1 = "insert (identity ?x) visited" and ?R1 = "insert (identity ?x) recursionStack"
      obtain f1 v1 r1 where res: "isCyclical_edges g identity compare ?x (edges g) ?V1 ?R1
          = (f1, v1, r1)"
        using prod_cases3 by blast
      have unr: "identity ?x \<notin> recursionStack" using unv sub by auto
      have F1: "?V1 - ?R1 = visited - recursionStack" using unv by auto
      have reach1: "\<forall>y \<in> ?N. identity y \<in> ?R1 \<longrightarrow> (y, ?x) \<in> (edge_rel g)\<^sup>*"
      proof (intro ballI impI)
        fix y assume y: "y \<in> ?N" "identity y \<in> ?R1"
        show "(y, ?x) \<in> (edge_rel g)\<^sup>*"
        proof (cases "identity y = identity ?x")
          case True
          then have "y = ?x" using consistent_on_identity[OF cons y(1) xN] by simp
          then show ?thesis by simp
        next
          case False
          with y(2) have "identity y \<in> recursionStack" by simp
          with reach y(1) have "(y, node) \<in> (edge_rel g)\<^sup>*" by blast
          with step show ?thesis by (rule rtrancl_into_rtrancl[rotated])
        qed
      qed
      have inv1: "isCyclical_inv g identity ?x [] ?V1 ?R1"
        unfolding isCyclical_inv_def F1 using xN sub fin reach1 by auto
      have ih1: "(f1 \<longrightarrow> graph_has_cycle g) \<and>
          (\<not> f1 \<longrightarrow> ?V1 \<subseteq> v1 \<and> r1 = ?R1 - {identity ?x} \<and> finished_ok g identity (v1 - r1))"
        by (rule 2(1)[OF match refl unv res cons _ inv1]) simp
      show ?thesis
      proof (cases f1)
        case True
        then have "found" using 2(5) match unv res by simp
        with True ih1 show ?thesis by simp
      next
        case False
        with ih1 have v1: "?V1 \<subseteq> v1" and r1: "r1 = recursionStack"
          and fin1: "finished_ok g identity (v1 - r1)"
          using unr by auto
        have nr1: "identity ?x \<notin> r1" using r1 unr by simp
        have eq: "isCyclical_edges g identity compare node rest v1 r1
            = (found, visited', recursionStack')"
          using 2(5) match unv res False nr1 by simp
        have "\<forall>e \<in> set (seen @ [edge]). edge_from e = node \<longrightarrow> identity (edge_to e) \<in> v1 - r1"
          using out v1 r1 unr by auto
        then have inv2: "isCyclical_inv g identity node (seen @ [edge]) v1 r1"
          unfolding isCyclical_inv_def r1 using nodeN onstack sub v1 fin1[unfolded r1] reach
          by auto
        have ih2: "(found \<longrightarrow> graph_has_cycle g) \<and>
          (\<not> found \<longrightarrow> v1 \<subseteq> visited' \<and> recursionStack' = r1 - {identity node} \<and>
                finished_ok g identity (visited' - recursionStack'))"
          by (rule 2(2)[OF match refl unv res[symmetric] refl False nr1 eq cons eg inv2])
        then show ?thesis using v1 r1 by auto
      qed
    qed
  qed
qed

text \<open>
  A call on a node that is already finished, from an empty recursion stack, scans the
  edges without descending and leaves both sets as they were.
\<close>

lemma isCyclical_edges_revisit:
  assumes cons: "consistent_on (graph_nodes g) identity compare"
      and fin: "finished_ok g identity visited"
      and nodeN: "node \<in> graph_nodes g"
      and vis: "identity node \<in> visited"
  shows "set es \<subseteq> set (edges g) \<Longrightarrow>
         isCyclical_edges g identity compare node es visited {identity node} = (False, visited, {})"
proof (induction es)
  case Nil
  then show ?case by simp
next
  case (Cons edge rest)
  then have edge_in: "edge \<in> set (edges g)" and rest: "set rest \<subseteq> set (edges g)" by auto
  from edge_in have xN: "edge_to edge \<in> graph_nodes g" and fN: "edge_from edge \<in> graph_nodes g"
    using edge_in_graph_nodes by blast+
  note IH = Cons.IH[OF rest]
  show ?case
  proof (cases "compare (edge_from edge) node = 0")
    case False
    then show ?thesis using IH by simp
  next
    case True
    then have from_node: "edge_from edge = node"
      using consistent_on_compare[OF cons fN nodeN] by simp
    then have v: "identity (edge_to edge) \<in> visited"
      using fin vis edge_in unfolding finished_ok_def by blast
    have "identity (edge_to edge) \<noteq> identity node"
    proof
      assume "identity (edge_to edge) = identity node"
      then have "edge_to edge = node" using consistent_on_identity[OF cons xN nodeN] by simp
      with from_node edge_in_edge_rel[OF edge_in] have "(node, node) \<in> (edge_rel g)\<^sup>+" by auto
      with fin nodeN vis show False unfolding finished_ok_def by blast
    qed
    with True v IH show ?thesis by simp
  qed
qed

lemma isCyclical_dagDFS_root:
  assumes cons: "consistent_on (graph_nodes g) identity compare"
      and fin: "finished_ok g identity visited"
      and nodeN: "node \<in> graph_nodes g"
      and res: "isCyclical_dagDFS g identity compare node visited {} = (found, visited', recursionStack')"
  shows "(found \<longrightarrow> graph_has_cycle g) \<and>
         (\<not> found \<longrightarrow> insert (identity node) visited \<subseteq> visited' \<and> recursionStack' = {} \<and>
            finished_ok g identity visited') \<and>
         (identity node \<in> visited \<longrightarrow> \<not> found \<and> visited' = visited)"
proof (cases "identity node \<in> visited")
  case True
  then have "insert (identity node) visited = visited" by auto
  with isCyclical_edges_revisit[OF cons fin nodeN True, of "edges g"] res
  have "found = False" "visited' = visited" "recursionStack' = {}"
    by (simp_all add: isCyclical_dagDFS_def)
  with fin True show ?thesis by auto
next
  case False
  let ?V1 = "insert (identity node) visited"
  have F: "?V1 - {identity node} = visited" using False by auto
  have "\<forall>x \<in> graph_nodes g. identity x \<in> {identity node} \<longrightarrow> (x, node) \<in> (edge_rel g)\<^sup>*"
    using consistent_on_identity[OF cons _ nodeN] by auto
  then have inv: "isCyclical_inv g identity node [] ?V1 {identity node}"
    unfolding isCyclical_inv_def F using nodeN fin by auto
  have eq: "isCyclical_edges g identity compare node (edges g) ?V1 (insert (identity node) {})
      = (found, visited', recursionStack')"
    using res by (simp add: isCyclical_dagDFS_def)
  have "(found \<longrightarrow> graph_has_cycle g) \<and>
   (\<not> found \<longrightarrow> ?V1 \<subseteq> visited' \<and> recursionStack' = {identity node} - {identity node} \<and>
                finished_ok g identity (visited' - recursionStack'))"
    by (rule isCyclical_edges_sound[OF eq[simplified] cons _ inv]) simp
  with False show ?thesis by auto
qed

lemma isCyclical_roots_sound:
  "consistent_on (graph_nodes g) identity compare \<Longrightarrow>
   finished_ok g identity visited \<Longrightarrow>
   set ns \<subseteq> graph_nodes g \<Longrightarrow>
   (isCyclical_roots g identity compare ns visited {} \<longrightarrow> graph_has_cycle g) \<and>
   (\<not> isCyclical_roots g identity compare ns visited {} \<longrightarrow>
      (\<exists>visited'. visited \<union> identity ` set ns \<subseteq> visited' \<and> finished_ok g identity visited'))"
proof (induction ns arbitrary: visited)
  case Nil
  then show ?case by auto
next
  case (Cons node rest)
  have nodeN: "node \<in> graph_nodes g" and restN: "set rest \<subseteq> graph_nodes g"
    using Cons.prems(3) by auto
  obtain found v1 r1 where
    res: "isCyclical_dagDFS g identity compare node visited {} = (found, v1, r1)"
    using prod_cases3 by blast
  note root = isCyclical_dagDFS_root[OF Cons.prems(1,2) nodeN res]
  show ?case
  proof (cases found)
    case True
    then have "graph_has_cycle g" using root by blast
    moreover have "isCyclical_roots g identity compare (node # rest) visited {}"
      using res True by simp
    ultimately show ?thesis by simp
  next
    case False
    then have v1: "insert (identity node) visited \<subseteq> v1" and r1: "r1 = {}"
      and fin1: "finished_ok g identity v1" using root by blast+
    have eq: "isCyclical_roots g identity compare (node # rest) visited {}
        = isCyclical_roots g identity compare rest v1 {}"
      using res False r1 by simp
    note IH = Cons.IH[OF Cons.prems(1) fin1 restN]
    show ?thesis
    proof (cases "isCyclical_roots g identity compare rest v1 {}")
      case True
      with IH eq show ?thesis by simp
    next
      case nf: False
      with IH obtain v2 where v2: "v1 \<union> identity ` set rest \<subseteq> v2" "finished_ok g identity v2"
        by blast
      have "visited \<union> identity ` set (node # rest) \<subseteq> v2" using v1 v2(1) by auto
      with v2(2) nf eq show ?thesis by blast
    qed
  qed
qed

lemma finished_ok_empty: "finished_ok g identity {}"
  by (simp add: finished_ok_def)

text \<open>
  C1: with every endpoint listed and identity and comparator consistent on the nodes, the
  check returns true exactly when the graph has a directed cycle, that is, false on every
  acyclic graph and true on every graph that contains a cycle.
\<close>

theorem isCyclical_correct:
  assumes "endpoints_in_nodes g"
      and "consistent_on (graph_nodes g) identity compare"
  shows "dagIsCyclicalDFS g identity compare = graph_has_cycle g"
proof -
  have N: "set (nodes g) \<subseteq> graph_nodes g" by (auto simp: graph_nodes_def)
  note snd = isCyclical_roots_sound[OF assms(2) finished_ok_empty N]
  show ?thesis
  proof (cases "dagIsCyclicalDFS g identity compare")
    case True
    with snd show ?thesis by (simp add: dagIsCyclicalDFS_def)
  next
    case False
    with snd obtain visited' where
      v: "identity ` set (nodes g) \<subseteq> visited'" and fin: "finished_ok g identity visited'"
      by (auto simp: dagIsCyclicalDFS_def)
    have "\<not> graph_has_cycle g"
    proof
      assume "graph_has_cycle g"
      then obtain x where x: "(x, x) \<in> (edge_rel g)\<^sup>+" unfolding graph_has_cycle_def by blast
      then obtain z where "(x, z) \<in> edge_rel g" by (auto dest: tranclD)
      then obtain e where e: "e \<in> set (edges g)" "edge_from e = x" by (auto simp: edge_rel_iff)
      with assms(1) have xn: "x \<in> set (nodes g)" by (auto simp: endpoints_in_nodes_def)
      with v have "identity x \<in> visited'" by auto
      moreover from xn N have "x \<in> graph_nodes g" by auto
      ultimately show False using fin x unfolding finished_ok_def by blast
    qed
    with False show ?thesis by simp
  qed
qed

theorem isCyclical_correct_witness:
  "graph_has_cycle \<lparr>nodes = [0::nat, 1, 2],
      edges = [\<lparr>edge_from = 0, edge_to = 1\<rparr>, \<lparr>edge_from = 1, edge_to = 2\<rparr>, \<lparr>edge_from = 2, edge_to = 1\<rparr>]\<rparr>
   \<and> \<not> dagIsCyclicalDFS \<lparr>nodes = [0::nat, 1, 2],
      edges = [\<lparr>edge_from = 0, edge_to = 1\<rparr>, \<lparr>edge_from = 0, edge_to = 2\<rparr>, \<lparr>edge_from = 1, edge_to = 2\<rparr>]\<rparr>
      (\<lambda>n. n) (\<lambda>a b. int a - int b)"
proof -
  let ?c = "\<lparr>nodes = [0::nat, 1, 2],
      edges = [\<lparr>edge_from = 0, edge_to = 1\<rparr>, \<lparr>edge_from = 1, edge_to = 2\<rparr>, \<lparr>edge_from = 2, edge_to = 1\<rparr>]\<rparr>"
  let ?a = "\<lparr>nodes = [0::nat, 1, 2],
      edges = [\<lparr>edge_from = 0, edge_to = 1\<rparr>, \<lparr>edge_from = 0, edge_to = 2\<rparr>, \<lparr>edge_from = 1, edge_to = 2\<rparr>]\<rparr>"
  have c1: "endpoints_in_nodes ?c" by (simp add: endpoints_in_nodes_def)
  have c2: "consistent_on (graph_nodes ?c) (\<lambda>n. n) (\<lambda>a b. int a - int b)"
    by (simp add: consistent_on_def)
  have c3: "dagIsCyclicalDFS ?c (\<lambda>n. n) (\<lambda>a b. int a - int b)"
    by (simp add: dagIsCyclicalDFS_def isCyclical_dagDFS_def)
  have a1: "endpoints_in_nodes ?a" by (simp add: endpoints_in_nodes_def)
  have a2: "consistent_on (graph_nodes ?a) (\<lambda>n. n) (\<lambda>a b. int a - int b)"
    by (simp add: consistent_on_def)
  have a3: "\<not> graph_has_cycle ?a"
    by (rule acyclic_by_rank[of _ "\<lambda>n. n"]) simp
  from isCyclical_correct[OF c1 c2] c3 isCyclical_correct[OF a1 a2] a3
  show ?thesis by simp
qed


subsection \<open>Cycle detection: the outer loop\<close>

lemma isCyclical_roots_ref:
  "consistent_on (graph_nodes g) identity compare \<Longrightarrow>
   finished_ok g identity visited \<Longrightarrow>
   set ns \<subseteq> graph_nodes g \<Longrightarrow>
   isCyclical_roots g identity compare ns visited {} =
   isCyclical_ref_roots g identity compare ns visited {}"
proof (induction ns arbitrary: visited)
  case Nil
  then show ?case by simp
next
  case (Cons node rest)
  have nodeN: "node \<in> graph_nodes g" and restN: "set rest \<subseteq> graph_nodes g"
    using Cons.prems(3) by auto
  obtain found v1 r1 where
    res: "isCyclical_dagDFS g identity compare node visited {} = (found, v1, r1)"
    using prod_cases3 by blast
  note root = isCyclical_dagDFS_root[OF Cons.prems(1,2) nodeN res]
  show ?case
  proof (cases "identity node \<in> visited")
    case True
    with root have "\<not> found" "v1 = visited" "r1 = {}" by blast+
    with res True Cons.IH[OF Cons.prems(1,2) restN] show ?thesis by simp
  next
    case unv: False
    show ?thesis
    proof (cases found)
      case True
      with res unv show ?thesis by simp
    next
      case False
      then have r1: "r1 = {}" and fin1: "finished_ok g identity v1" using root by blast+
      with res unv False Cons.IH[OF Cons.prems(1) fin1 restN] show ?thesis by simp
    qed
  qed
qed

text \<open>
  C9: with identity and comparator consistent on the nodes of the graph, the check gives
  the result of the search that starts from unvisited nodes only. Calling the inner search
  on a node that is already visited finds nothing and changes nothing.
\<close>

theorem isCyclical_refines_reference:
  assumes "consistent_on (graph_nodes g) identity compare"
  shows "dagIsCyclicalDFS g identity compare = dagIsCyclicalDFS_ref g identity compare"
proof -
  have "set (nodes g) \<subseteq> graph_nodes g" by (auto simp: graph_nodes_def)
  from isCyclical_roots_ref[OF assms finished_ok_empty this] show ?thesis
    by (simp add: dagIsCyclicalDFS_def dagIsCyclicalDFS_ref_def)
qed

theorem isCyclical_refines_reference_witness:
  "dagIsCyclicalDFS \<lparr>nodes = [0::nat, 1, 2],
      edges = [\<lparr>edge_from = 0, edge_to = 1\<rparr>, \<lparr>edge_from = 0, edge_to = 2\<rparr>, \<lparr>edge_from = 2, edge_to = 3\<rparr>]\<rparr>
      (\<lambda>n. n) (\<lambda>a b. int a - int b)
   = dagIsCyclicalDFS_ref \<lparr>nodes = [0::nat, 1, 2],
      edges = [\<lparr>edge_from = 0, edge_to = 1\<rparr>, \<lparr>edge_from = 0, edge_to = 2\<rparr>, \<lparr>edge_from = 2, edge_to = 3\<rparr>]\<rparr>
      (\<lambda>n. n) (\<lambda>a b. int a - int b)"
proof -
  let ?g = "\<lparr>nodes = [0::nat, 1, 2],
      edges = [\<lparr>edge_from = 0, edge_to = 1\<rparr>, \<lparr>edge_from = 0, edge_to = 2\<rparr>, \<lparr>edge_from = 2, edge_to = 3\<rparr>]\<rparr>"
  have "consistent_on (graph_nodes ?g) (\<lambda>n. n) (\<lambda>a b. int a - int b)"
    by (simp add: consistent_on_def)
  from isCyclical_refines_reference[OF this] show ?thesis .
qed

subsection \<open>Self-loops\<close>














text \<open>
  When two listed nodes share an identity the second is never searched, and its self-loop
  yields no record at all; hence the injectivity condition below.
\<close>

lemma self_loop_shared_identity_example:
  "dagCyclesDFS \<lparr>nodes = [0::nat, 1], edges = [\<lparr>edge_from = 1, edge_to = 1\<rparr>]\<rparr>
     (\<lambda>n. 0::nat) (\<lambda>a b. int a - int b) = []"
  by (simp add: dagCyclesDFS_def cycles_dagDFS_def)

subsection \<open>Cycle records: what a reported cycle means\<close>














end
